theory Spec2Isabelle
  imports Main "HOL-Library.Word" "HOL-Library.Char_ord" "HOL-Library.List_Lexorder"
begin

unbundle bit_operations_syntax

section \<open>Data model of macaddress.py\<close>

text \<open>
  A hardware address class is a Python class with the two class attributes \<open>size\<close> and
  \<open>formats\<close>. Python compares classes by identity (\<open>isinstance\<close>), never by name: two
  classes may share their \<open>__name__\<close>, as the classes that test.py builds do. The model
  gives every class object its identity \<open>cls_id\<close> and records the identities of its
  proper ancestors, as its method resolution order lists them; \<open>HWAddress\<close> itself has
  the identity 0. A size is a number of bits.
\<close>

record hwclass =
  cls_id :: nat
  cls_name :: string
  cls_bases :: "nat list"
  size_bits :: nat
  formats :: "string list"

text \<open>An instance: its class and the slot \<open>_address\<close> (the field \<open>p_address\<close>).\<close>

record hwaddress =
  cls :: hwclass
  p_address :: int

text \<open>
  The objects the methods can receive: the constructor dispatches on \<open>int\<close>, \<open>bytes\<close>
  and \<open>str\<close>, the comparisons on \<open>HWAddress\<close>; anything else is \<open>PyOther\<close>.
\<close>

datatype pyobject =
    PyInt int
  | PyBytes "8 word list"
  | PyStr string
  | PyHW hwaddress
  | PyOther

text \<open>
  Every failure of the source is a \<open>ValueError\<close>, a \<open>TypeError\<close> or, from
  \<open>int.to_bytes\<close>, an \<open>OverflowError\<close>. The messages are replaced by the place that raises.
\<close>

datatype value_error =
    Too_big
  | Negative
  | Wrong_length
  | Empty_string
  | Cannot_parse
  | Invalid_literal

datatype error =
    ValueError value_error
  | TypeError
  | OverflowError
  | IndexError

text \<open>The error taxonomy of the specification, over the source's errors.\<close>

definition RangeError :: "error \<Rightarrow> bool" where
  "RangeError e = (e = ValueError Too_big \<or> e = ValueError Negative)"

definition LengthError :: "error \<Rightarrow> bool" where
  "LengthError e = (e = ValueError Wrong_length)"


definition isinstance :: "hwaddress \<Rightarrow> hwclass \<Rightarrow> bool" where
  "isinstance obj c =
     (cls_id c = cls_id (cls obj) \<or> cls_id c \<in> set (cls_bases (cls obj)))"

subsection \<open>The provided classes\<close>

text \<open>
  The identities: \<open>HWAddress\<close> 0, \<open>OUI\<close> 1, \<open>_StartsWithOUI\<close> 2, \<open>CDI32\<close> 3, \<open>CDI40\<close> 4,
  \<open>EUI48\<close> 5, \<open>MAC\<close> 6, \<open>EUI60\<close> 7, \<open>EUI64\<close> 8.
\<close>

definition OUI :: hwclass where
  "OUI = \<lparr>cls_id = 1, cls_name = ''OUI'', cls_bases = [0], size_bits = 24,
     formats = [''xx-xx-xx'', ''xx:xx:xx'', ''xxxxxx'']\<rparr>"

definition CDI32 :: hwclass where
  "CDI32 = \<lparr>cls_id = 3, cls_name = ''CDI32'', cls_bases = [2, 0],
     size_bits = 32,
     formats = [''xx-xx-xx-xx'', ''xx:xx:xx:xx'', ''xxxxxxxx'']\<rparr>"

definition CDI40 :: hwclass where
  "CDI40 = \<lparr>cls_id = 4, cls_name = ''CDI40'', cls_bases = [2, 0],
     size_bits = 40,
     formats = [''xx-xx-xx-xx-xx'', ''xx:xx:xx:xx:xx'', ''xxxxxxxxxx'']\<rparr>"

definition EUI48 :: hwclass where
  "EUI48 = \<lparr>cls_id = 5, cls_name = ''EUI48'', cls_bases = [2, 0],
     size_bits = 48,
     formats = [''xx-xx-xx-xx-xx-xx'', ''xx:xx:xx:xx:xx:xx'', ''xxxx.xxxx.xxxx'',
                ''xxxxxxxxxxxx'']\<rparr>"

text \<open>\<open>MAC\<close> subclasses \<open>EUI48\<close> and inherits both attributes.\<close>

definition MAC :: hwclass where
  "MAC = \<lparr>cls_id = 6, cls_name = ''MAC'', cls_bases = [5, 2, 0],
     size_bits = size_bits EUI48, formats = formats EUI48\<rparr>"

definition EUI60 :: hwclass where
  "EUI60 = \<lparr>cls_id = 7, cls_name = ''EUI60'', cls_bases = [2, 0],
     size_bits = 60,
     formats = [''x.x.x.x.x.x.x.x.x.x.x.x.x.x.x'', ''xx-xx-xx.x.x.x.x.x.x.x.x.x'',
                ''xxxxxxxxxxxxxxx'']\<rparr>"

definition EUI64 :: hwclass where
  "EUI64 = \<lparr>cls_id = 8, cls_name = ''EUI64'', cls_bases = [2, 0],
     size_bits = 64,
     formats = [''xx-xx-xx-xx-xx-xx-xx-xx'', ''xx:xx:xx:xx:xx:xx:xx:xx'',
                ''xxxx.xxxx.xxxx.xxxx'', ''xxxxxxxxxxxxxxxx'']\<rparr>"

section \<open>Bytes and integers\<close>

text \<open>\<open>int.from_bytes(b, 'big')\<close>: the loop over the bytes, most significant first.\<close>

fun from_bytes_acc :: "int \<Rightarrow> 8 word list \<Rightarrow> int" where
  "from_bytes_acc acc [] = acc"
| "from_bytes_acc acc (b # bs) = from_bytes_acc (push_bit 8 acc + uint b) bs"

definition int_from_bytes :: "8 word list \<Rightarrow> int" where
  "int_from_bytes bs = from_bytes_acc 0 bs"

text \<open>
  \<open>n.to_bytes(length, 'big')\<close>: raises \<open>OverflowError\<close> for a negative \<open>n\<close> and for one
  that does not fit in \<open>length\<close> bytes.
\<close>

fun to_bytes_digits :: "nat \<Rightarrow> int \<Rightarrow> 8 word list" where
  "to_bytes_digits 0 n = []"
| "to_bytes_digits (Suc k) n = to_bytes_digits k (drop_bit 8 n) @ [word_of_int (n AND 255)]"

definition int_to_bytes :: "int \<Rightarrow> nat \<Rightarrow> error + 8 word list" where
  "int_to_bytes n len =
     (if n < 0 then Inl OverflowError
      else if push_bit (8 * len) 1 \<le> n then Inl OverflowError
      else Inr (to_bytes_digits len n))"

section \<open>The format matcher: \<open>_parse\<close>\<close>

definition HEX_DIGITS :: string where
  "HEX_DIGITS = ''0123456789ABCDEFabcdef''"

text \<open>\<open>int(character, 16)\<close> on one character; \<open>None\<close> where Python raises.\<close>

definition int16 :: "char \<Rightarrow> int option" where
  "int16 character =
     (let n = (of_char character :: nat) in
      if 48 \<le> n \<and> n \<le> 57 then Some (int n - 48)
      else if 65 \<le> n \<and> n \<le> 70 then Some (int n - 55)
      else if 97 \<le> n \<and> n \<le> 102 then Some (int n - 87)
      else None)"

text \<open>
  The dictionary \<open>candidates\<close> keeps its items in insertion order; \<open>setdefault\<close>
  leaves an existing key alone.
\<close>

definition setdefault :: "('k \<times> 'v) list \<Rightarrow> 'k \<Rightarrow> 'v \<Rightarrow> ('k \<times> 'v) list" where
  "setdefault d k v = (if k \<in> set (map fst d) then d else d @ [(k, v)])"

fun collect_formats ::
  "(string \<times> hwclass) list \<Rightarrow> hwclass \<Rightarrow> string list \<Rightarrow> nat \<Rightarrow> (string \<times> hwclass) list" where
  "collect_formats candidates c [] len = candidates"
| "collect_formats candidates c (format # rest) len =
     collect_formats
       (if length format = len then setdefault candidates format c else candidates)
       c rest len"

fun collect_classes ::
  "(string \<times> hwclass) list \<Rightarrow> hwclass list \<Rightarrow> nat \<Rightarrow> (string \<times> hwclass) list" where
  "collect_classes candidates [] len = candidates"
| "collect_classes candidates (c # rest) len =
     collect_classes (collect_formats candidates c (formats c) len) rest len"

text \<open>The two inner \<open>while\<close> loops that narrow the window \<open>[start, end)\<close>.\<close>

function narrow_start ::
  "(string \<times> hwclass) list \<Rightarrow> nat \<Rightarrow> char \<Rightarrow> nat \<Rightarrow> nat \<Rightarrow> nat" where
  "narrow_start candidates index character start end =
     (if start < end \<and> fst (candidates ! start) ! index < character
      then narrow_start candidates index character (start + 1) end
      else start)"
  by pat_completeness auto
termination
  by (relation "measure (\<lambda>(candidates, index, character, start, end). end - start)") auto

function narrow_end ::
  "(string \<times> hwclass) list \<Rightarrow> nat \<Rightarrow> char \<Rightarrow> nat \<Rightarrow> nat \<Rightarrow> nat" where
  "narrow_end candidates index character start end =
     (if start < end \<and> fst (candidates ! (end - 1)) ! index > character
      then narrow_end candidates index character start (end - 1)
      else end)"
  by pat_completeness auto
termination
  by (relation "measure (\<lambda>(candidates, index, character, start, end). end)") auto

text \<open>
  One hexadecimal digit of the input is shifted into \<open>address\<close> and compared as the
  wildcard; any other character is compared as it is.
\<close>

definition normalize :: "int \<Rightarrow> char \<Rightarrow> (int \<times> char) option" where
  "normalize address character =
     (if character \<in> set HEX_DIGITS
      then map_option (\<lambda>digit. (push_bit 4 address + digit, CHR ''x'')) (int16 character)
      else Some (address, character))"

function parse_loop ::
  "string \<Rightarrow> (string \<times> hwclass) list \<Rightarrow> nat \<Rightarrow> int \<Rightarrow> nat \<Rightarrow> nat \<Rightarrow> error + (int \<times> nat \<times> nat)" where
  "parse_loop input candidates index address start end =
     (if index < length input then
        (case normalize address (input ! index) of
           None \<Rightarrow> Inl (ValueError Invalid_literal)
         | Some (address', character) \<Rightarrow>
             (let start' = narrow_start candidates index character start end;
                  end' = narrow_end candidates index character start' end
              in if start' \<ge> end' then Inl (ValueError Cannot_parse)
                 else parse_loop input candidates (index + 1) address' start' end'))
      else Inr (address, start, end))"
  by pat_completeness auto
termination
  by (relation "measure (\<lambda>(input, candidates, index, address, start, end). length input - index)")
     auto

text \<open>The three loops are unfolded one step at a time, never by the simplifier.\<close>

declare narrow_start.simps [simp del] narrow_end.simps [simp del] parse_loop.simps [simp del]

text \<open>
  \<open>sorted(candidates.items())\<close> sorts the pairs; the keys of a dictionary are distinct,
  so the order of the pairs is the lexicographic order of the format strings.
\<close>

definition parse_impl :: "string \<Rightarrow> hwclass list \<Rightarrow> error + (int \<times> hwclass)" where
  "parse_impl input classes =
     (let len = length input in
      if len < 1 then Inl (ValueError Empty_string)
      else
        (let candidates = sort_key fst (collect_classes [] classes len) in
         case parse_loop input candidates 0 0 0 (length candidates) of
           Inl e \<Rightarrow> Inl e
         | Inr (address, start, end) \<Rightarrow>
             (let c = snd (candidates ! start);
                  offset = nat ((4 - int (size_bits c)) AND 3)
              in Inr (drop_bit offset address, c))))"

section \<open>The class \<open>HWAddress\<close>\<close>

definition HWAddress_init :: "hwclass \<Rightarrow> pyobject \<Rightarrow> error + hwaddress" where
  "HWAddress_init c addr =
     (case addr of
        PyInt a \<Rightarrow>
          (let overflow = push_bit (size_bits c) 1 in
           if a \<ge> overflow then Inl (ValueError Too_big)
           else if a < 0 then Inl (ValueError Negative)
           else Inr \<lparr>cls = c, p_address = a\<rparr>)
      | PyBytes bs \<Rightarrow>
          (let len = length bs;
               size_in_bytes = drop_bit 3 (size_bits c + 7) in
           if len \<noteq> size_in_bytes then Inl (ValueError Wrong_length)
           else
             (let offset = nat ((8 - int (size_bits c)) AND 7)
              in Inr \<lparr>cls = c, p_address = drop_bit offset (int_from_bytes bs)\<rparr>))
      | PyStr s \<Rightarrow>
          (case parse_impl s [c] of
             Inl e \<Rightarrow> Inl e
           | Inr (a, _) \<Rightarrow> Inr \<lparr>cls = c, p_address = a\<rparr>)
      | _ \<Rightarrow> Inl TypeError)"

text \<open>The loop of \<open>__str__\<close> over the reversed format, and \<open>__str__\<close> for a given format.\<close>

fun str_loop :: "string \<Rightarrow> int \<Rightarrow> string \<Rightarrow> string" where
  "str_loop [] unconsumed_address_value result = result"
| "str_loop (character # rest) unconsumed_address_value result =
     (if character = CHR ''x'' then
        (let nibble = unconsumed_address_value AND 15
         in str_loop rest (drop_bit 4 unconsumed_address_value)
              (result @ [HEX_DIGITS ! nat nibble]))
      else str_loop rest unconsumed_address_value (result @ [character]))"

definition render :: "string \<Rightarrow> nat \<Rightarrow> int \<Rightarrow> string" where
  "render format size_in_bits addr =
     (let offset = nat ((4 - int size_in_bits) AND 3);
          unconsumed_address_value = push_bit offset addr
      in rev (str_loop (rev format) unconsumed_address_value []))"

definition HWAddress_str :: "hwaddress \<Rightarrow> error + string" where
  "HWAddress_str self =
     (case formats (cls self) of
        [] \<Rightarrow> Inl IndexError
      | format # _ \<Rightarrow> Inr (render format (size_bits (cls self)) (p_address self)))"

definition HWAddress_bytes :: "hwaddress \<Rightarrow> error + 8 word list" where
  "HWAddress_bytes self =
     (let offset = nat ((8 - int (size_bits (cls self))) AND 7);
          size_in_bytes = drop_bit 3 (size_bits (cls self) + 7)
      in int_to_bytes (push_bit offset (p_address self)) size_in_bytes)"

definition HWAddress_int :: "hwaddress \<Rightarrow> int" where
  "HWAddress_int self = p_address self"

definition HWAddress_eq :: "hwaddress \<Rightarrow> pyobject \<Rightarrow> bool" where
  "HWAddress_eq self other =
     (case other of
        PyHW that \<Rightarrow>
          (if \<not> isinstance that (cls self) \<or> size_bits (cls self) \<noteq> size_bits (cls that)
           then False
           else p_address self = p_address that)
      | _ \<Rightarrow> False)"

definition HWAddress_ne :: "hwaddress \<Rightarrow> pyobject \<Rightarrow> bool" where
  "HWAddress_ne self other =
     (case other of
        PyHW that \<Rightarrow>
          (if \<not> isinstance that (cls self) \<or> size_bits (cls self) \<noteq> size_bits (cls that)
           then True
           else p_address self \<noteq> p_address that)
      | _ \<Rightarrow> True)"

text \<open>
  The operators \<open>==\<close> and \<open>!=\<close> of Python on two instances: when the class of the right
  operand is a proper subclass of the class of the left operand, the method of the right
  operand is called first, with the operands swapped; otherwise the method of the left
  operand is. \<open>__eq__\<close> and \<open>__ne__\<close> return a truth value for every argument, never
  \<open>NotImplemented\<close>, so the first call decides.
\<close>

definition operator_eq :: "hwaddress \<Rightarrow> hwaddress \<Rightarrow> bool" where
  "operator_eq a b =
     (if cls_id (cls b) \<noteq> cls_id (cls a) \<and> cls_id (cls a) \<in> set (cls_bases (cls b))
      then HWAddress_eq b (PyHW a)
      else HWAddress_eq a (PyHW b))"

definition operator_ne :: "hwaddress \<Rightarrow> hwaddress \<Rightarrow> bool" where
  "operator_ne a b =
     (if cls_id (cls b) \<noteq> cls_id (cls a) \<and> cls_id (cls a) \<in> set (cls_bases (cls b))
      then HWAddress_ne b (PyHW a)
      else HWAddress_ne a (PyHW b))"

definition aligned_address_integers :: "hwaddress \<Rightarrow> hwaddress \<Rightarrow> int \<times> int" where
  "aligned_address_integers address1 address2 =
     (let size1 = size_bits (cls address1);
          size2 = size_bits (cls address2) in
      if size1 > size2
      then (HWAddress_int address1, push_bit (size1 - size2) (HWAddress_int address2))
      else (push_bit (size2 - size1) (HWAddress_int address1), HWAddress_int address2))"

text \<open>The four comparisons; \<open>None\<close> is \<open>NotImplemented\<close>.\<close>

definition HWAddress_lt :: "hwaddress \<Rightarrow> pyobject \<Rightarrow> bool option" where
  "HWAddress_lt self other =
     (case other of
        PyHW that \<Rightarrow>
          (let (this, that') = aligned_address_integers self that
           in Some (this < that' \<or>
                (this = that' \<and> size_bits (cls self) < size_bits (cls that))))
      | _ \<Rightarrow> None)"

definition HWAddress_le :: "hwaddress \<Rightarrow> pyobject \<Rightarrow> bool option" where
  "HWAddress_le self other =
     (case other of
        PyHW that \<Rightarrow>
          (let (this, that') = aligned_address_integers self that
           in Some (this < that' \<or>
                (this = that' \<and> size_bits (cls self) \<le> size_bits (cls that))))
      | _ \<Rightarrow> None)"

definition HWAddress_gt :: "hwaddress \<Rightarrow> pyobject \<Rightarrow> bool option" where
  "HWAddress_gt self other =
     (case other of
        PyHW that \<Rightarrow>
          (let (this, that') = aligned_address_integers self that
           in Some (this > that' \<or>
                (this = that' \<and> size_bits (cls self) > size_bits (cls that))))
      | _ \<Rightarrow> None)"

definition HWAddress_ge :: "hwaddress \<Rightarrow> pyobject \<Rightarrow> bool option" where
  "HWAddress_ge self other =
     (case other of
        PyHW that \<Rightarrow>
          (let (this, that') = aligned_address_integers self that
           in Some (this > that' \<or>
                (this = that' \<and> size_bits (cls self) \<ge> size_bits (cls that))))
      | _ \<Rightarrow> None)"

section \<open>The function \<open>parse\<close>\<close>


section \<open>Notions of the specification and of the test suite\<close>

text \<open>
  A class as \<open>_address_classes\<close> of test.py builds it for 24 bits and no random format:
  a direct subclass of \<open>HWAddress\<close> named \<open>Class24\<close>, of size 24, with the one format of
  six wildcards. It is neither \<open>OUI\<close> nor a subclass of it.
\<close>

definition Class24 :: hwclass where
  "Class24 = \<lparr>cls_id = 9, cls_name = ''Class24'', cls_bases = [0], size_bits = 24,
     formats = [''xxxxxx'']\<rparr>"

text \<open>
  A value as the data model describes it: a non-negative integer below
  \<open>2 ^ bit_width\<close>, tagged with its kind.
\<close>

definition hw_value :: "hwaddress \<Rightarrow> bool" where
  "hw_value a = (0 \<le> p_address a \<and> p_address a < 2 ^ size_bits (cls a))"

text \<open>
  A kind as the data model describes it: a positive bit width, a non-empty sequence of
  templates, and in every template as many wildcards as \<open>ceil(bit_width / 4)\<close>
  (\<open>test_provided_classes\<close> checks the last for the provided classes).
\<close>

definition valid_kind :: "hwclass \<Rightarrow> bool" where
  "valid_kind K =
     (0 < size_bits K \<and> formats K \<noteq> [] \<and>
      list_all (\<lambda>f. count_list f (CHR ''x'') = drop_bit 2 (size_bits K + 3)) (formats K))"

text \<open>A template whose literal characters are not hexadecimal digits.\<close>

definition plain_literals :: "string \<Rightarrow> bool" where
  "plain_literals f = list_all (\<lambda>c. c = CHR ''x'' \<or> c \<notin> set HEX_DIGITS) f"

text \<open>
  The bit string of a value, as \<open>_bits\<close> of test.py computes it: \<open>size\<close> characters,
  the most significant bit first.
\<close>

fun bits_loop :: "nat \<Rightarrow> int \<Rightarrow> int list \<Rightarrow> int list" where
  "bits_loop 0 addr bits = bits"
| "bits_loop (Suc size_left) addr bits =
     (let least_significant_bit = addr AND 1
      in bits_loop size_left (drop_bit 1 addr) (bits @ [least_significant_bit]))"

definition str_of_bit :: "int \<Rightarrow> char" where
  "str_of_bit b = (if b = 0 then CHR ''0'' else CHR ''1'')"

definition bits_of :: "hwaddress \<Rightarrow> string" where
  "bits_of a = map str_of_bit (rev (bits_loop (size_bits (cls a)) (p_address a) []))"

text \<open>
  The bit string padded with zeros on the left to \<open>w\<close> bits, in the words of the
  specification: left-zero-padded.
\<close>

definition left_zero_padded :: "nat \<Rightarrow> string \<Rightarrow> string" where
  "left_zero_padded w bs = replicate (w - length bs) (CHR ''0'') @ bs"

text \<open>
  The bit string aligned to the left of a field of \<open>w\<close> bits, the free places on the
  right filled with zeros: what shifting the integer left by the width difference does.
\<close>

definition left_aligned :: "nat \<Rightarrow> string \<Rightarrow> string" where
  "left_aligned w bs = bs @ replicate (w - length bs) (CHR ''0'')"

text \<open>
  The number a bit string denotes, and the strings of the two characters \<open>0\<close> and \<open>1\<close>;
  the bit string of \<open>bits_of\<close> for a given size and integer; and the integer of a value
  aligned to the left of a field of \<open>W\<close> bits.
\<close>

fun bits_value :: "string \<Rightarrow> int" where
  "bits_value [] = 0"
| "bits_value (c # cs) = (if c = CHR ''1'' then 2 ^ length cs else 0) + bits_value cs"

definition binary :: "string \<Rightarrow> bool" where
  "binary cs = list_all (\<lambda>c. c = CHR ''0'' \<or> c = CHR ''1'') cs"

definition bit_string :: "nat \<Rightarrow> int \<Rightarrow> string" where
  "bit_string n v = map str_of_bit (rev (bits_loop n v []))"

definition aligned_key :: "nat \<Rightarrow> hwaddress \<Rightarrow> int" where
  "aligned_key W a = p_address a * 2 ^ (W - size_bits (cls a))"

text \<open>
  What the loop of \<open>_parse\<close> compares and accumulates: the input with every hexadecimal
  digit replaced by the wildcard, and the integer shifted in digit by digit; and the
  invariant of the window: after \<open>i\<close> characters, \<open>[s, e)\<close> holds exactly the candidates
  that agree with the normalized input on these \<open>i\<close> characters.
\<close>

definition normalized :: "string \<Rightarrow> string" where
  "normalized input = map (\<lambda>c. if c \<in> set HEX_DIGITS then CHR ''x'' else c) input"

definition accumulate :: "string \<Rightarrow> int \<Rightarrow> int" where
  "accumulate cs a =
     foldl (\<lambda>raw c. case int16 c of Some digit \<Rightarrow> raw * 16 + digit | None \<Rightarrow> raw) a cs"

definition window :: "string list \<Rightarrow> string \<Rightarrow> nat \<Rightarrow> nat \<Rightarrow> nat \<Rightarrow> bool" where
  "window keys t i s e =
     (s \<le> e \<and> e \<le> length keys \<and>
      (\<forall>j<length keys. (s \<le> j \<and> j < e) = (take i (keys ! j) = take i t)))"

text \<open>
  A class with a literal hexadecimal digit in its format: 8 bits, written as \<open>id-\<close> and two
  digits.
\<close>

definition Tag8 :: hwclass where
  "Tag8 = \<lparr>cls_id = 10, cls_name = ''Tag8'', cls_bases = [0], size_bits = 8,
     formats = [''id-xx'']\<rparr>"

text \<open>
  The reference matcher, in the words of the specification: a template matches an input
  of its length that has a hexadecimal digit at every wildcard and the template's own
  character elsewhere; the match is the smallest matching template with the first kind
  that offers it; the integer is the big-endian accumulation of the hexadecimal digits
  of the input, shifted right by \<open>(4 - bit_width mod 4) mod 4\<close>.
\<close>

definition structurally_matches :: "string \<Rightarrow> string \<Rightarrow> bool" where
  "structurally_matches template input =
     list_all2 (\<lambda>t c. if t = CHR ''x'' then c \<in> set HEX_DIGITS else t = c) template input"

definition hex_accumulate :: "string \<Rightarrow> int" where
  "hex_accumulate input =
     foldl (\<lambda>raw c. case int16 c of Some digit \<Rightarrow> raw * 16 + digit | None \<Rightarrow> raw) 0 input"

definition reference_match :: "string \<Rightarrow> hwclass list \<Rightarrow> (int \<times> hwclass) option" where
  "reference_match input kinds =
     (case filter (\<lambda>t. structurally_matches t input) (concat (map formats kinds)) of
        [] \<Rightarrow> None
      | t # ts \<Rightarrow>
          (case find (\<lambda>K. fold min ts t \<in> set (formats K)) kinds of
             None \<Rightarrow> None
           | Some K \<Rightarrow>
               Some (hex_accumulate input div 2 ^ ((4 - size_bits K mod 4) mod 4), K)))"

section \<open>Construction from an integer\<close>

text \<open>
  C8. The constructor, given an integer \<open>n\<close>, fails with a range error exactly when
  \<open>n\<close> is negative or at least \<open>2 ^ size\<close>, and otherwise succeeds and stores \<open>n\<close>
  unchanged.
\<close>

theorem from_integer_range_error:
  "((\<exists>e. HWAddress_init K (PyInt n) = Inl e \<and> RangeError e)
      \<longleftrightarrow> (n < 0 \<or> 2 ^ size_bits K \<le> n))
   \<and> (HWAddress_init K (PyInt n) = Inr \<lparr>cls = K, p_address = n\<rparr>
      \<longleftrightarrow> (0 \<le> n \<and> n < 2 ^ size_bits K))"
  by (auto simp: HWAddress_init_def RangeError_def Let_def push_bit_eq_mult)

theorem from_integer_range_error_witness:
  "(\<exists>e. HWAddress_init EUI48 (PyInt (2 ^ 48)) = Inl e \<and> RangeError e)
   \<and> (\<exists>e. HWAddress_init EUI48 (PyInt (- 1)) = Inl e \<and> RangeError e)
   \<and> HWAddress_init EUI48 (PyInt 1250999896491) = Inr \<lparr>cls = EUI48, p_address = 1250999896491\<rparr>"
  using from_integer_range_error [of EUI48 "2 ^ 48"]
    from_integer_range_error [of EUI48 "- 1"]
    from_integer_range_error [of EUI48 1250999896491]
  by (simp add: EUI48_def)

text \<open>
  C5. For every kind \<open>K\<close> and every integer \<open>n\<close> with \<open>0 \<le> n < 2 ^ size\<close>, the value
  constructed from \<open>n\<close> converts back to the integer \<open>n\<close>.
\<close>

theorem round_trip_integer:
  "0 \<le> n \<Longrightarrow> n < 2 ^ size_bits K \<Longrightarrow>
   \<exists>v. HWAddress_init K (PyInt n) = Inr v \<and> HWAddress_int v = n"
  by (simp add: HWAddress_init_def HWAddress_int_def Let_def push_bit_eq_mult)

theorem round_trip_integer_witness:
  "(0::int) \<le> 1250999896491 \<and> (1250999896491::int) < 2 ^ size_bits EUI48 \<and>
   (\<exists>v. HWAddress_init EUI48 (PyInt 1250999896491) = Inr v
        \<and> HWAddress_int v = 1250999896491)"
  using round_trip_integer [of 1250999896491 EUI48] by (simp add: EUI48_def)

section \<open>Equality\<close>

text \<open>
  C1, as the specification states it: two values are equal exactly when their kinds have
  the same bit width and their integers are equal. It fails for an \<open>OUI\<close> and a value
  of the class \<open>Class24\<close> of test.py with the same 24 bits: the two classes are unrelated,
  and \<open>__eq__\<close> answers \<open>False\<close> for a value that is not an instance of the class of
  \<open>self\<close>. The operator \<open>==\<close> gives the same answer.
\<close>

theorem eq_same_width_unrelated_kind_counterexample:
  "\<not> (HWAddress_eq \<lparr>cls = OUI, p_address = 66051\<rparr> (PyHW \<lparr>cls = Class24, p_address = 66051\<rparr>)
       \<longleftrightarrow> (size_bits OUI = size_bits Class24 \<and> (66051::int) = 66051))
   \<and> \<not> (operator_eq \<lparr>cls = OUI, p_address = 66051\<rparr> \<lparr>cls = Class24, p_address = 66051\<rparr>
       \<longleftrightarrow> (size_bits OUI = size_bits Class24 \<and> (66051::int) = 66051))"
  by (simp add: HWAddress_eq_def operator_eq_def isinstance_def OUI_def Class24_def)

text \<open>
  C1, amended: for two values of the same kind, the equality operation returns true
  exactly when their integers are equal (their bit widths are then the same); for two
  values of unrelated kinds, neither of which is the other or a subclass of it, it
  returns false, also when the bit widths and the integers agree; and the not-equal
  operation returns the negation. This holds of the methods \<open>__eq__\<close> and \<open>__ne__\<close> and of
  the operators \<open>==\<close> and \<open>!=\<close>. A class and a proper subclass of it are left open.
\<close>

theorem eq_same_kind_or_unrelated:
  "(cls a = cls b \<longrightarrow>
      HWAddress_eq a (PyHW b) = (p_address a = p_address b)
      \<and> operator_eq a b = (p_address a = p_address b))
   \<and> (\<not> isinstance b (cls a) \<and> \<not> isinstance a (cls b) \<longrightarrow>
      \<not> HWAddress_eq a (PyHW b) \<and> \<not> operator_eq a b)
   \<and> HWAddress_ne a (PyHW b) = (\<not> HWAddress_eq a (PyHW b))
   \<and> operator_ne a b = (\<not> operator_eq a b)"
  by (auto simp: HWAddress_eq_def HWAddress_ne_def operator_eq_def operator_ne_def
      isinstance_def)

theorem eq_same_kind_or_unrelated_witness:
  "HWAddress_eq \<lparr>cls = OUI, p_address = 5\<rparr> (PyHW \<lparr>cls = OUI, p_address = 5\<rparr>)
   \<and> operator_eq \<lparr>cls = OUI, p_address = 5\<rparr> \<lparr>cls = OUI, p_address = 5\<rparr>
   \<and> operator_ne \<lparr>cls = OUI, p_address = 5\<rparr> \<lparr>cls = OUI, p_address = 6\<rparr>
   \<and> \<not> isinstance \<lparr>cls = Class24, p_address = 5\<rparr> OUI
   \<and> \<not> isinstance \<lparr>cls = OUI, p_address = 5\<rparr> Class24
   \<and> operator_ne \<lparr>cls = OUI, p_address = 5\<rparr> \<lparr>cls = Class24, p_address = 5\<rparr>"
proof -
  have unrelated: "\<not> isinstance \<lparr>cls = Class24, p_address = 5\<rparr> OUI"
    "\<not> isinstance \<lparr>cls = OUI, p_address = 5\<rparr> Class24"
    by (simp_all add: isinstance_def OUI_def Class24_def)
  show ?thesis
    using unrelated
      eq_same_kind_or_unrelated [of "\<lparr>cls = OUI, p_address = 5\<rparr>" "\<lparr>cls = OUI, p_address = 5\<rparr>"]
      eq_same_kind_or_unrelated [of "\<lparr>cls = OUI, p_address = 5\<rparr>" "\<lparr>cls = OUI, p_address = 6\<rparr>"]
      eq_same_kind_or_unrelated [of "\<lparr>cls = OUI, p_address = 5\<rparr>" "\<lparr>cls = Class24, p_address = 5\<rparr>"]
    by simp
qed

section \<open>Arithmetic of the paddings\<close>

lemma and_small_masks:
  "(n::int) AND 1 = n mod 2" "(n::int) AND 3 = n mod 4" "(n::int) AND 7 = n mod 8"
  "(n::int) AND 15 = n mod 16" "(n::int) AND 255 = n mod 256"
  using take_bit_eq_mask [of 1 n] take_bit_eq_mask [of 2 n] take_bit_eq_mask [of 3 n]
    take_bit_eq_mask [of 4 n] take_bit_eq_mask [of 8 n]
  by (simp_all add: take_bit_eq_mod mask_eq_exp_minus_1)

lemma int_byte_alignment:
  fixes x :: int
  shows "x + (8 - x) mod 8 = 8 * ((x + 7) div 8)"
proof -
  define r where "r = x mod 8"
  define q where "q = x div 8"
  have x: "x = 8 * q + r" and r: "0 \<le> r" "r < 8"
    by (simp_all add: q_def r_def)
  have "(8 - x) mod 8 = (8 - r) mod 8"
    unfolding r_def by (simp only: mod_diff_right_eq)
  moreover have "(x + 7) div 8 = q + (r + 7) div 8"
    unfolding x by simp
  moreover have "r = 0 \<or> r = 1 \<or> r = 2 \<or> r = 3 \<or> r = 4 \<or> r = 5 \<or> r = 6 \<or> r = 7"
    using r by linarith
  then have "(8 - r) mod 8 + r = 8 * ((r + 7) div 8)"
    by (elim disjE) simp_all
  ultimately show ?thesis
    using x by simp
qed

lemma byte_alignment:
  "s + nat ((8 - int s) mod 8) = 8 * ((s + 7) div 8)"
proof -
  have "int (s + nat ((8 - int s) mod 8)) = int (8 * ((s + 7) div 8))"
    using int_byte_alignment [of "int s"] by (simp add: zdiv_int)
  then show ?thesis
    by (simp only: of_nat_eq_iff)
qed

lemma int_nibble_alignment:
  fixes x :: int
  shows "x + (4 - x) mod 4 = 4 * ((x + 3) div 4)"
proof -
  define r where "r = x mod 4"
  define q where "q = x div 4"
  have x: "x = 4 * q + r" and r: "0 \<le> r" "r < 4"
    by (simp_all add: q_def r_def)
  have "(4 - x) mod 4 = (4 - r) mod 4"
    unfolding r_def by (simp only: mod_diff_right_eq)
  moreover have "(x + 3) div 4 = q + (r + 3) div 4"
    unfolding x by simp
  moreover have "r = 0 \<or> r = 1 \<or> r = 2 \<or> r = 3"
    using r by linarith
  then have "(4 - r) mod 4 + r = 4 * ((r + 3) div 4)"
    by (elim disjE) simp_all
  ultimately show ?thesis
    using x by simp
qed

lemma nibble_alignment:
  "s + nat ((4 - int s) mod 4) = 4 * ((s + 3) div 4)"
proof -
  have "int (s + nat ((4 - int s) mod 4)) = int (4 * ((s + 3) div 4))"
    using int_nibble_alignment [of "int s"] by (simp add: zdiv_int)
  then show ?thesis
    by (simp only: of_nat_eq_iff)
qed

lemma padding_offset:
  assumes "s mod 8 \<noteq> 0"
  shows "nat ((8 - int s) mod 8) = 8 - s mod 8"
proof -
  have "int (s mod 8) = int s mod 8"
    by (simp add: zmod_int)
  moreover have "0 < int (s mod 8)" "int (s mod 8) < 8"
    using assms by simp_all
  ultimately have r: "0 < int s mod 8" "int s mod 8 < 8"
    by (simp_all only:)
  have "(8 - int s) mod 8 = (8 - int s mod 8) mod 8"
    by (simp only: mod_diff_right_eq)
  also have "\<dots> = 8 - int s mod 8"
    using r by (intro mod_pos_pos_trivial) simp_all
  also have "\<dots> = int (8 - s mod 8)"
    by (simp add: of_nat_diff zmod_int)
  finally show ?thesis
    by (simp only: nat_int)
qed

lemma size_in_bytes_eq: "drop_bit 3 (s + 7) = (s + 7) div (8::nat)"
  by (simp add: drop_bit_eq_div)

section \<open>Byte strings\<close>

lemma from_bytes_acc_snoc:
  "from_bytes_acc acc (bs @ [b]) = from_bytes_acc acc bs * 256 + uint b"
  by (induction bs arbitrary: acc) (simp_all add: push_bit_eq_mult)

lemma length_to_bytes_digits: "length (to_bytes_digits k n) = k"
  by (induction k arbitrary: n) simp_all

lemma from_bytes_to_bytes_digits:
  "0 \<le> n \<Longrightarrow> n < 256 ^ k \<Longrightarrow> int_from_bytes (to_bytes_digits k n) = n"
proof (induction k arbitrary: n)
  case 0
  then show ?case by (simp add: int_from_bytes_def)
next
  case (Suc k)
  have "0 \<le> n div 256" "n div 256 < 256 ^ k"
    using Suc.prems by (simp_all add: div_less_iff_less_mult mult.commute)
  then have "int_from_bytes (to_bytes_digits k (n div 256)) = n div 256"
    by (rule Suc.IH)
  moreover have "uint (word_of_int (n mod 256) :: 8 word) = n mod 256"
    by (simp add: uint_word_of_int take_bit_eq_mod)
  ultimately show ?case
    by (simp add: int_from_bytes_def from_bytes_acc_snoc and_small_masks drop_bit_eq_div)
qed

lemma drop_padding_snoc:
  assumes "k \<le> 8"
  shows "drop_bit k (int_from_bytes (bs @ [b]))
    = int_from_bytes bs * 2 ^ (8 - k) + uint (drop_bit k b)"
proof -
  have "(256::int) = 2 ^ (8 - k) * 2 ^ k"
    using assms by (simp flip: power_add)
  then have "int_from_bytes bs * 256 + uint b
    = uint b + (int_from_bytes bs * 2 ^ (8 - k)) * 2 ^ k"
    by (simp only: mult.assoc add.commute)
  then have "(int_from_bytes bs * 256 + uint b) div 2 ^ k
    = int_from_bytes bs * 2 ^ (8 - k) + uint b div 2 ^ k"
    by (simp only: div_mult_self1 [of "2 ^ k"] power_eq_0_iff) simp
  moreover have "drop_bit k (int_from_bytes (bs @ [b]))
    = (int_from_bytes bs * 256 + uint b) div 2 ^ k"
    by (simp add: int_from_bytes_def from_bytes_acc_snoc drop_bit_eq_div)
  moreover have "take_bit 8 (uint b) = uint b"
    using uint_nonnegative [of b] uint_bounded [of b] by (simp add: take_bit_int_eq_self)
  then have "uint (drop_bit k b) = drop_bit k (uint b)"
    by (simp add: unsigned_drop_bit_eq)
  then have "uint (drop_bit k b) = uint b div 2 ^ k"
    by (simp only: drop_bit_eq_div)
  ultimately show ?thesis
    by (simp only:)
qed

lemma init_bytes_same:
  assumes "size_bits K mod 8 \<noteq> 0"
    and "length bs = (size_bits K + 7) div 8"
    and "length bs' = (size_bits K + 7) div 8"
    and "butlast bs = butlast bs'"
    and "drop_bit (8 - size_bits K mod 8) (last bs) = drop_bit (8 - size_bits K mod 8) (last bs')"
  shows "\<exists>v. HWAddress_init K (PyBytes bs) = Inr v \<and> HWAddress_init K (PyBytes bs') = Inr v
           \<and> HWAddress_eq v (PyHW v)"
proof -
  define k where "k = 8 - size_bits K mod 8"
  have k: "k \<le> 8" "nat ((8 - int (size_bits K)) mod 8) = k"
    using padding_offset [OF assms(1)] by (simp_all only: k_def diff_le_self)
  have "0 < size_bits K"
    using assms(1) by (cases "size_bits K") simp_all
  then have "bs \<noteq> []" "bs' \<noteq> []"
    using assms(2,3) by auto
  then have split: "bs = butlast bs @ [last bs]" "bs' = butlast bs' @ [last bs']"
    by simp_all
  have "drop_bit k (int_from_bytes bs) = drop_bit k (int_from_bytes bs')"
    using drop_padding_snoc [OF k(1), of "butlast bs" "last bs"]
      drop_padding_snoc [OF k(1), of "butlast bs'" "last bs'"] split assms(4,5)
    by (simp add: k_def)
  then show ?thesis
    using assms(2,3) k(2)
    by (simp add: HWAddress_init_def Let_def size_in_bytes_eq and_small_masks
        HWAddress_eq_def isinstance_def)
qed

text \<open>
  C7. For every kind \<open>K\<close> and every integer \<open>n\<close> with \<open>0 \<le> n < 2 ^ size\<close>: the value
  constructed from \<open>n\<close> serializes to a byte string of \<open>ceil(size / 8)\<close> bytes, the
  constructor accepts that byte string, and the value it builds converts to \<open>n\<close>.
\<close>

theorem round_trip_bytes:
  assumes "0 \<le> n" and "n < 2 ^ size_bits K"
  shows "\<exists>v bs v'. HWAddress_init K (PyInt n) = Inr v \<and> HWAddress_bytes v = Inr bs
           \<and> length bs = (size_bits K + 7) div 8
           \<and> HWAddress_init K (PyBytes bs) = Inr v' \<and> HWAddress_int v' = n"
proof -
  define off where "off = nat ((8 - int (size_bits K)) mod 8)"
  define sib where "sib = (size_bits K + 7) div 8"
  have align: "size_bits K + off = 8 * sib"
    unfolding off_def sib_def by (rule byte_alignment)
  have "n * 2 ^ off < 2 ^ size_bits K * 2 ^ off"
    using assms(2) by simp
  moreover have "(256::int) ^ sib = 2 ^ (8 * sib)"
    by (simp add: power_mult)
  ultimately have fits: "n * 2 ^ off < 256 ^ sib"
    using align by (simp flip: power_add)
  have nonneg: "0 \<le> n * 2 ^ off"
    using assms(1) by simp
  have v: "HWAddress_init K (PyInt n) = Inr \<lparr>cls = K, p_address = n\<rparr>"
    using assms by (simp add: HWAddress_init_def Let_def push_bit_eq_mult)
  have bs: "HWAddress_bytes \<lparr>cls = K, p_address = n\<rparr> = Inr (to_bytes_digits sib (n * 2 ^ off))"
    using fits nonneg
    by (simp add: HWAddress_bytes_def int_to_bytes_def Let_def and_small_masks
        size_in_bytes_eq push_bit_eq_mult off_def sib_def power_mult)
  have rebuilt: "HWAddress_init K (PyBytes (to_bytes_digits sib (n * 2 ^ off)))
      = Inr \<lparr>cls = K, p_address = n\<rparr>"
    using from_bytes_to_bytes_digits [OF nonneg fits]
    by (simp add: HWAddress_init_def Let_def length_to_bytes_digits size_in_bytes_eq
        and_small_masks drop_bit_eq_div off_def sib_def)
  show ?thesis
    using v bs rebuilt by (simp add: length_to_bytes_digits sib_def HWAddress_int_def)
qed

theorem round_trip_bytes_witness:
  "(0::int) \<le> 81985529216486895 \<and> (81985529216486895::int) < 2 ^ size_bits EUI60 \<and>
   (\<exists>v bs v'. HWAddress_init EUI60 (PyInt 81985529216486895) = Inr v
      \<and> HWAddress_bytes v = Inr bs \<and> length bs = (size_bits EUI60 + 7) div 8
      \<and> HWAddress_init EUI60 (PyBytes bs) = Inr v' \<and> HWAddress_int v' = 81985529216486895)"
  using round_trip_bytes [of 81985529216486895 EUI60] by (simp add: EUI60_def)

text \<open>
  C10. For a kind whose size is not a multiple of 8, the constructor accepts every byte
  string of the right length, also one whose low \<open>8 - size mod 8\<close> padding bits are not
  zero, and drops those bits: two byte strings of the right length that agree on all but
  these bits of the last byte construct the same value, which is equal to itself, so the
  constructor is not injective on byte strings of the right length.
\<close>

theorem from_bytes_discards_padding:
  assumes "size_bits K mod 8 \<noteq> 0"
  shows "(\<forall>bs bs'. length bs = (size_bits K + 7) div 8 \<and> length bs' = (size_bits K + 7) div 8
            \<and> butlast bs = butlast bs'
            \<and> drop_bit (8 - size_bits K mod 8) (last bs) = drop_bit (8 - size_bits K mod 8) (last bs')
          \<longrightarrow> (\<exists>v. HWAddress_init K (PyBytes bs) = Inr v \<and> HWAddress_init K (PyBytes bs') = Inr v
                 \<and> HWAddress_eq v (PyHW v)))
     \<and> (\<exists>bs bs'. bs \<noteq> bs' \<and> length bs = (size_bits K + 7) div 8
            \<and> length bs' = (size_bits K + 7) div 8
            \<and> take_bit (8 - size_bits K mod 8) (last bs') \<noteq> 0
            \<and> (\<exists>v. HWAddress_init K (PyBytes bs) = Inr v \<and> HWAddress_init K (PyBytes bs') = Inr v))"
proof (intro conjI allI impI)
  fix bs bs' :: "8 word list"
  assume "length bs = (size_bits K + 7) div 8 \<and> length bs' = (size_bits K + 7) div 8
            \<and> butlast bs = butlast bs'
            \<and> drop_bit (8 - size_bits K mod 8) (last bs) = drop_bit (8 - size_bits K mod 8) (last bs')"
  then show "\<exists>v. HWAddress_init K (PyBytes bs) = Inr v \<and> HWAddress_init K (PyBytes bs') = Inr v
                 \<and> HWAddress_eq v (PyHW v)"
    using init_bytes_same [OF assms, of bs bs'] by simp
next
  define m where "m = (size_bits K + 7) div 8 - 1"
  define k where "k = 8 - size_bits K mod 8"
  have "0 < size_bits K"
    using assms by (cases "size_bits K") simp_all
  then have m: "Suc m = (size_bits K + 7) div 8"
    unfolding m_def by presburger
  have k: "0 < k"
    by (simp add: k_def)
  then have low: "drop_bit k (1 :: 8 word) = 0" "take_bit k (1 :: 8 word) = 1"
    by (simp_all add: drop_bit_of_1 take_bit_of_1)
  let ?bs = "replicate m 0 @ [0 :: 8 word]" and ?bs' = "replicate m 0 @ [1 :: 8 word]"
  have "\<exists>v. HWAddress_init K (PyBytes ?bs) = Inr v \<and> HWAddress_init K (PyBytes ?bs') = Inr v
           \<and> HWAddress_eq v (PyHW v)"
    using low(1) m by (intro init_bytes_same [OF assms]) (simp_all add: k_def)
  moreover have "?bs \<noteq> ?bs'" "length ?bs = (size_bits K + 7) div 8"
    "length ?bs' = (size_bits K + 7) div 8" "take_bit k (last ?bs') \<noteq> 0"
    using low(2) m by simp_all
  ultimately show "\<exists>bs bs'. bs \<noteq> bs' \<and> length bs = (size_bits K + 7) div 8
            \<and> length bs' = (size_bits K + 7) div 8
            \<and> take_bit (8 - size_bits K mod 8) (last bs') \<noteq> 0
            \<and> (\<exists>v. HWAddress_init K (PyBytes bs) = Inr v \<and> HWAddress_init K (PyBytes bs') = Inr v)"
    unfolding k_def by blast
qed

theorem from_bytes_discards_padding_witness:
  "size_bits EUI60 mod 8 \<noteq> 0 \<and>
   (\<exists>v. HWAddress_init EUI60 (PyBytes [1, 35, 69, 103, 137, 171, 205, 224]) = Inr v
      \<and> HWAddress_init EUI60 (PyBytes [1, 35, 69, 103, 137, 171, 205, 239]) = Inr v
      \<and> HWAddress_eq v (PyHW v))"
proof -
  have h: "size_bits EUI60 mod 8 \<noteq> 0"
    by (simp add: EUI60_def)
  note t = from_bytes_discards_padding [OF h, THEN conjunct1, rule_format,
      of "[1, 35, 69, 103, 137, 171, 205, 224]" "[1, 35, 69, 103, 137, 171, 205, 239]"]
  have "drop_bit 4 (224 :: 8 word) = drop_bit 4 (239 :: 8 word)"
    by simp
  then show ?thesis
    using h t by (simp add: EUI60_def)
qed

section \<open>Ordering\<close>

lemma bits_loop_acc: "bits_loop n v acc = acc @ bits_loop n v []"
proof (induction n arbitrary: v acc)
  case 0
  show ?case by simp
next
  case (Suc n)
  show ?case
    using Suc.IH [of "drop_bit 1 v" "acc @ [v AND 1]"] Suc.IH [of "drop_bit 1 v" "[v AND 1]"]
    by (simp add: Let_def)
qed

lemma bit_string_Suc:
  "bit_string (Suc n) v = bit_string n (v div 2) @ [str_of_bit (v mod 2)]"
  using bits_loop_acc [of n "drop_bit 1 v" "[v AND 1]"]
  by (simp add: bit_string_def Let_def and_small_masks drop_bit_eq_div)

lemma length_bit_string: "length (bit_string n v) = n"
  by (induction n arbitrary: v) (simp_all add: bit_string_Suc, simp add: bit_string_def)

lemma binary_bit_string: "binary (bit_string n v)"
  by (induction n arbitrary: v)
    (simp_all add: bit_string_Suc binary_def str_of_bit_def, simp add: bit_string_def)

lemma bits_value_append:
  "bits_value (xs @ ys) = bits_value xs * 2 ^ length ys + bits_value ys"
  by (induction xs) (simp_all add: power_add algebra_simps)

lemma bits_value_bit_string: "bits_value (bit_string n v) = v mod 2 ^ n"
proof (induction n arbitrary: v)
  case 0
  show ?case by (simp add: bit_string_def)
next
  case (Suc n)
  have "v mod 2 = 0 \<or> v mod 2 = 1"
    by presburger
  then have "bits_value [str_of_bit (v mod 2)] = v mod 2"
    by (auto simp: str_of_bit_def)
  then have "bits_value (bit_string (Suc n) v) = 2 * (v div 2 mod 2 ^ n) + v mod 2"
    by (simp add: bit_string_Suc bits_value_append Suc.IH)
  also have "\<dots> = v mod 2 ^ Suc n"
    using zmod_zmult2_eq [of "2 ^ n" v 2] by simp
  finally show ?case .
qed

lemma bits_value_zeros: "bits_value (replicate k (CHR ''0'')) = 0"
  by (induction k) simp_all

lemma bits_value_bounds: "0 \<le> bits_value xs \<and> bits_value xs < 2 ^ length xs"
proof (induction xs)
  case Nil
  show ?case by simp
next
  case (Cons c cs)
  then show ?case by simp
qed

lemma binary_less_iff:
  assumes "length xs = length ys" and "binary xs" and "binary ys"
  shows "(xs < ys \<longleftrightarrow> bits_value xs < bits_value ys)
       \<and> (xs = ys \<longleftrightarrow> bits_value xs = bits_value ys)"
  using assms
proof (induction xs ys rule: list_induct2)
  case Nil
  show ?case by simp
next
  case (Cons x xs y ys)
  have IH: "(xs < ys \<longleftrightarrow> bits_value xs < bits_value ys)"
    "(xs = ys \<longleftrightarrow> bits_value xs = bits_value ys)"
    using Cons by (simp_all add: binary_def)
  have xy: "x = CHR ''0'' \<or> x = CHR ''1''" "y = CHR ''0'' \<or> y = CHR ''1''"
    using Cons.prems by (simp_all add: binary_def)
  have bx: "0 \<le> bits_value xs" "bits_value xs < 2 ^ length ys"
    using bits_value_bounds [of xs] Cons.hyps by simp_all
  have "by": "0 \<le> bits_value ys" "bits_value ys < 2 ^ length ys"
    using bits_value_bounds [of ys] by simp_all
  have ord: "CHR ''0'' < CHR ''1''" "\<not> CHR ''1'' < CHR ''0''"
    by (simp_all add: less_char_def)
  show ?case
    using xy IH bx "by" ord Cons.hyps by (elim disjE) auto
qed


lemma binary_append: "binary (xs @ ys) = (binary xs \<and> binary ys)"
  by (simp add: binary_def)

lemma binary_zeros: "binary (replicate k (CHR ''0''))"
  by (induction k) (simp_all add: binary_def)

lemma aligned_address_integers_eq:
  "aligned_address_integers a b =
     (p_address a * 2 ^ (max (size_bits (cls a)) (size_bits (cls b)) - size_bits (cls a)),
      p_address b * 2 ^ (max (size_bits (cls a)) (size_bits (cls b)) - size_bits (cls b)))"
  by (simp add: aligned_address_integers_def HWAddress_int_def Let_def push_bit_eq_mult max_def)

lemma padded_value:
  assumes "hw_value a" and "size_bits (cls a) \<le> w"
  shows "bits_value (left_aligned w (bits_of a)) = p_address a * 2 ^ (w - size_bits (cls a))"
    and "length (left_aligned w (bits_of a)) = w"
    and "binary (left_aligned w (bits_of a))"
proof -
  have b: "bits_of a = bit_string (size_bits (cls a)) (p_address a)"
    by (simp add: bits_of_def bit_string_def)
  have "p_address a mod 2 ^ size_bits (cls a) = p_address a"
    using assms(1) by (simp add: hw_value_def)
  then show "bits_value (left_aligned w (bits_of a)) = p_address a * 2 ^ (w - size_bits (cls a))"
    by (simp add: b left_aligned_def bits_value_append bits_value_bit_string bits_value_zeros
        length_bit_string)
  show "length (left_aligned w (bits_of a)) = w"
    using assms(2) by (simp add: b left_aligned_def length_bit_string)
  show "binary (left_aligned w (bits_of a))"
    by (simp add: b left_aligned_def binary_append binary_zeros binary_bit_string)
qed

lemma bits_value_left_zero_padded:
  "bits_value (left_zero_padded w xs) = bits_value xs"
  by (simp add: left_zero_padded_def bits_value_append bits_value_zeros)

lemma left_zero_padded_value:
  assumes "hw_value a" and "size_bits (cls a) \<le> w"
  shows "bits_value (left_zero_padded w (bits_of a)) = p_address a"
    and "length (left_zero_padded w (bits_of a)) = w"
    and "binary (left_zero_padded w (bits_of a))"
proof -
  have b: "bits_of a = bit_string (size_bits (cls a)) (p_address a)"
    by (simp add: bits_of_def bit_string_def)
  have "p_address a mod 2 ^ size_bits (cls a) = p_address a"
    using assms(1) by (simp add: hw_value_def)
  then show "bits_value (left_zero_padded w (bits_of a)) = p_address a"
    by (simp add: b bits_value_left_zero_padded bits_value_bit_string)
  show "length (left_zero_padded w (bits_of a)) = w"
    using assms(2) by (simp add: b left_zero_padded_def length_bit_string)
  show "binary (left_zero_padded w (bits_of a))"
    by (simp add: b left_zero_padded_def binary_append binary_zeros binary_bit_string)
qed

text \<open>
  C2, as the specification states it: \<open>a < b\<close> holds exactly when the bit string of \<open>a\<close>,
  padded with zeros on the left to the larger of the two sizes, is lexicographically less
  than that of \<open>b\<close>, with ties broken by the smaller size. It fails for the \<open>OUI\<close> with
  the integer 1 and the \<open>CDI32\<close> with the integer 2: the code compares 256 with 2 and
  answers \<open>False\<close>, while the strings padded on the left compare as 1 and 2.
\<close>

theorem lt_left_zero_padded_counterexample:
  "\<not> (HWAddress_lt \<lparr>cls = OUI, p_address = 1\<rparr> (PyHW \<lparr>cls = CDI32, p_address = 2\<rparr>) =
      Some (left_zero_padded (max (size_bits OUI) (size_bits CDI32))
                (bits_of \<lparr>cls = OUI, p_address = 1\<rparr>)
              < left_zero_padded (max (size_bits OUI) (size_bits CDI32))
                (bits_of \<lparr>cls = CDI32, p_address = 2\<rparr>)
            \<or> (left_zero_padded (max (size_bits OUI) (size_bits CDI32))
                  (bits_of \<lparr>cls = OUI, p_address = 1\<rparr>)
                 = left_zero_padded (max (size_bits OUI) (size_bits CDI32))
                  (bits_of \<lparr>cls = CDI32, p_address = 2\<rparr>)
               \<and> size_bits OUI < size_bits CDI32)))"
proof -
  let ?a = "\<lparr>cls = OUI, p_address = 1\<rparr>" and ?b = "\<lparr>cls = CDI32, p_address = 2\<rparr>"
  let ?w = "max (size_bits OUI) (size_bits CDI32)"
  have a: "hw_value ?a" "size_bits (cls ?a) \<le> ?w" and b: "hw_value ?b" "size_bits (cls ?b) \<le> ?w"
    by (simp_all add: hw_value_def OUI_def CDI32_def)
  note pa = left_zero_padded_value [OF a] and pb = left_zero_padded_value [OF b]
  have len: "length (left_zero_padded ?w (bits_of ?a)) = length (left_zero_padded ?w (bits_of ?b))"
    using pa(2) pb(2) by simp
  have "left_zero_padded ?w (bits_of ?a) < left_zero_padded ?w (bits_of ?b)"
    using binary_less_iff [OF len pa(3) pb(3), THEN conjunct1] pa(1) pb(1) by simp
  moreover have "HWAddress_lt ?a (PyHW ?b) = Some False"
    by (simp add: HWAddress_lt_def aligned_address_integers_def HWAddress_int_def
        OUI_def CDI32_def push_bit_eq_mult)
  ultimately show ?thesis
    by simp
qed

text \<open>
  C2, amended: for two values \<open>a\<close> and \<open>b\<close> of any kinds, \<open>a < b\<close> holds exactly when the
  bit string of \<open>a\<close>, aligned to the left and filled with zeros on the right to the larger
  of the two sizes, is lexicographically less than that of \<open>b\<close>, or the two are the same
  and \<open>a\<close> has the smaller size. The alignment leaves the integer of the wider value as it
  is and shifts the integer of the narrower one left by the difference of the sizes.
\<close>

theorem lt_iff_left_aligned_bits_less:
  assumes "hw_value a" and "hw_value b"
  shows "HWAddress_lt a (PyHW b) =
      Some (left_aligned (max (size_bits (cls a)) (size_bits (cls b))) (bits_of a)
              < left_aligned (max (size_bits (cls a)) (size_bits (cls b))) (bits_of b)
            \<or> (left_aligned (max (size_bits (cls a)) (size_bits (cls b))) (bits_of a)
                 = left_aligned (max (size_bits (cls a)) (size_bits (cls b))) (bits_of b)
               \<and> size_bits (cls a) < size_bits (cls b)))
    \<and> aligned_address_integers a b =
      (if size_bits (cls a) > size_bits (cls b)
       then (p_address a, p_address b * 2 ^ (size_bits (cls a) - size_bits (cls b)))
       else (p_address a * 2 ^ (size_bits (cls b) - size_bits (cls a)), p_address b))"
proof -
  define w where "w = max (size_bits (cls a)) (size_bits (cls b))"
  have w: "size_bits (cls a) \<le> w" "size_bits (cls b) \<le> w"
    by (simp_all add: w_def)
  note pa = padded_value [OF assms(1) w(1)] and pb = padded_value [OF assms(2) w(2)]
  have len: "length (left_aligned w (bits_of a)) = length (left_aligned w (bits_of b))"
    using pa(2) pb(2) by simp
  note cmp = binary_less_iff [OF len pa(3) pb(3), unfolded pa(1) pb(1)]
  have "HWAddress_lt a (PyHW b) =
      Some (p_address a * 2 ^ (w - size_bits (cls a)) < p_address b * 2 ^ (w - size_bits (cls b))
        \<or> (p_address a * 2 ^ (w - size_bits (cls a)) = p_address b * 2 ^ (w - size_bits (cls b))
           \<and> size_bits (cls a) < size_bits (cls b)))"
    unfolding HWAddress_lt_def aligned_address_integers_eq w_def by simp
  then have lt: "HWAddress_lt a (PyHW b) =
      Some (left_aligned w (bits_of a) < left_aligned w (bits_of b)
        \<or> (left_aligned w (bits_of a) = left_aligned w (bits_of b)
           \<and> size_bits (cls a) < size_bits (cls b)))"
    by (simp only: cmp [THEN conjunct1] cmp [THEN conjunct2])
  have al: "aligned_address_integers a b =
      (if size_bits (cls a) > size_bits (cls b)
       then (p_address a, p_address b * 2 ^ (size_bits (cls a) - size_bits (cls b)))
       else (p_address a * 2 ^ (size_bits (cls b) - size_bits (cls a)), p_address b))"
    by (simp add: aligned_address_integers_def HWAddress_int_def Let_def push_bit_eq_mult)
  from lt [unfolded w_def] al show ?thesis
    by (rule conjI)
qed

theorem lt_iff_left_aligned_bits_less_witness:
  "hw_value \<lparr>cls = OUI, p_address = 66051\<rparr> \<and> hw_value \<lparr>cls = EUI48, p_address = 1108152157446\<rparr>
   \<and> HWAddress_lt \<lparr>cls = OUI, p_address = 66051\<rparr> (PyHW \<lparr>cls = EUI48, p_address = 1108152157446\<rparr>)
       = Some True
   \<and> (left_aligned 48 (bits_of \<lparr>cls = OUI, p_address = 66051\<rparr>)
         < left_aligned 48 (bits_of \<lparr>cls = EUI48, p_address = 1108152157446\<rparr>)
       \<or> (left_aligned 48 (bits_of \<lparr>cls = OUI, p_address = 66051\<rparr>)
            = left_aligned 48 (bits_of \<lparr>cls = EUI48, p_address = 1108152157446\<rparr>)))"
proof -
  let ?a = "\<lparr>cls = OUI, p_address = 66051\<rparr>" and ?b = "\<lparr>cls = EUI48, p_address = 1108152157446\<rparr>"
  have a: "hw_value ?a" and b: "hw_value ?b"
    by (simp_all add: hw_value_def OUI_def EUI48_def)
  have lt: "HWAddress_lt ?a (PyHW ?b) = Some True"
    by (simp add: HWAddress_lt_def aligned_address_integers_def HWAddress_int_def
        OUI_def EUI48_def push_bit_eq_mult)
  have m: "max (size_bits (cls ?a)) (size_bits (cls ?b)) = 48"
    by (simp add: OUI_def EUI48_def)
  from lt_iff_left_aligned_bits_less [OF a b, THEN conjunct1, unfolded m lt]
  show ?thesis
    using a b lt by auto
qed

lemma aligned_key_scaled:
  assumes "size_bits (cls a) \<le> W" and "size_bits (cls b) \<le> W"
  shows "aligned_key W a = fst (aligned_address_integers a b)
            * 2 ^ (W - max (size_bits (cls a)) (size_bits (cls b)))"
    and "aligned_key W b = snd (aligned_address_integers a b)
            * 2 ^ (W - max (size_bits (cls a)) (size_bits (cls b)))"
proof -
  define w where "w = max (size_bits (cls a)) (size_bits (cls b))"
  have w: "size_bits (cls a) \<le> w" "size_bits (cls b) \<le> w" "w \<le> W"
    using assms by (simp_all add: w_def)
  have "W - size_bits (cls a) = (w - size_bits (cls a)) + (W - w)"
    "W - size_bits (cls b) = (w - size_bits (cls b)) + (W - w)"
    using w by simp_all
  then have "(2::int) ^ (W - size_bits (cls a)) = 2 ^ (w - size_bits (cls a)) * 2 ^ (W - w)"
    "(2::int) ^ (W - size_bits (cls b)) = 2 ^ (w - size_bits (cls b)) * 2 ^ (W - w)"
    by (simp_all only: power_add)
  then show "aligned_key W a = fst (aligned_address_integers a b)
            * 2 ^ (W - max (size_bits (cls a)) (size_bits (cls b)))"
    and "aligned_key W b = snd (aligned_address_integers a b)
            * 2 ^ (W - max (size_bits (cls a)) (size_bits (cls b)))"
    by (simp_all add: aligned_key_def aligned_address_integers_eq flip: w_def)
qed

lemma scaled_compare:
  fixes x y c :: int
  assumes "0 < c"
  shows "x * c < y * c \<longleftrightarrow> x < y" and "x * c = y * c \<longleftrightarrow> x = y"
  using assms by simp_all

lemma comparisons_by_key:
  assumes "size_bits (cls a) \<le> W" and "size_bits (cls b) \<le> W"
  shows "HWAddress_lt a (PyHW b) = Some (aligned_key W a < aligned_key W b
           \<or> (aligned_key W a = aligned_key W b \<and> size_bits (cls a) < size_bits (cls b)))"
    and "HWAddress_le a (PyHW b) = Some (aligned_key W a < aligned_key W b
           \<or> (aligned_key W a = aligned_key W b \<and> size_bits (cls a) \<le> size_bits (cls b)))"
    and "HWAddress_gt a (PyHW b) = Some (aligned_key W b < aligned_key W a
           \<or> (aligned_key W a = aligned_key W b \<and> size_bits (cls b) < size_bits (cls a)))"
    and "HWAddress_ge a (PyHW b) = Some (aligned_key W b < aligned_key W a
           \<or> (aligned_key W a = aligned_key W b \<and> size_bits (cls b) \<le> size_bits (cls a)))"
proof -
  define d :: int where "d = 2 ^ (W - max (size_bits (cls a)) (size_bits (cls b)))"
  have d: "0 < d"
    by (simp add: d_def)
  obtain this that where al: "aligned_address_integers a b = (this, that)"
    by (cases "aligned_address_integers a b")
  have k: "aligned_key W a = this * d" "aligned_key W b = that * d"
    using aligned_key_scaled [OF assms] al by (simp_all add: d_def)
  note sc = scaled_compare [OF d]
  show "HWAddress_lt a (PyHW b) = Some (aligned_key W a < aligned_key W b
           \<or> (aligned_key W a = aligned_key W b \<and> size_bits (cls a) < size_bits (cls b)))"
    using d by (simp add: HWAddress_lt_def al k sc)
  show "HWAddress_le a (PyHW b) = Some (aligned_key W a < aligned_key W b
           \<or> (aligned_key W a = aligned_key W b \<and> size_bits (cls a) \<le> size_bits (cls b)))"
    using d by (simp add: HWAddress_le_def al k sc)
  show "HWAddress_gt a (PyHW b) = Some (aligned_key W b < aligned_key W a
           \<or> (aligned_key W a = aligned_key W b \<and> size_bits (cls b) < size_bits (cls a)))"
    using d by (simp add: HWAddress_gt_def al k sc)
  show "HWAddress_ge a (PyHW b) = Some (aligned_key W b < aligned_key W a
           \<or> (aligned_key W a = aligned_key W b \<and> size_bits (cls b) \<le> size_bits (cls a)))"
    using d by (simp add: HWAddress_ge_def al k sc)
qed

lemma aligned_key_same_size:
  "size_bits (cls a) = size_bits (cls b) \<Longrightarrow>
   aligned_key W a = aligned_key W b \<longleftrightarrow> p_address a = p_address b"
  by (simp add: aligned_key_def)


lemma lt_irreflexive: "HWAddress_lt a (PyHW a) = Some False"
  using comparisons_by_key(1) [of a "size_bits (cls a)" a] by simp

lemma lt_transitive:
  assumes "HWAddress_lt a (PyHW b) = Some True" and "HWAddress_lt b (PyHW c) = Some True"
  shows "HWAddress_lt a (PyHW c) = Some True"
proof -
  define W where "W = size_bits (cls a) + size_bits (cls b) + size_bits (cls c)"
  have W: "size_bits (cls a) \<le> W" "size_bits (cls b) \<le> W" "size_bits (cls c) \<le> W"
    by (simp_all add: W_def)
  show ?thesis
    using assms
    unfolding comparisons_by_key(1) [OF W(1) W(2)] comparisons_by_key(1) [OF W(2) W(3)]
      comparisons_by_key(1) [OF W(1) W(3)]
    by auto
qed

lemma le_total:
  "HWAddress_le a (PyHW b) = Some True \<or> HWAddress_le b (PyHW a) = Some True"
proof -
  define W where "W = size_bits (cls a) + size_bits (cls b)"
  have W: "size_bits (cls a) \<le> W" "size_bits (cls b) \<le> W"
    by (simp_all add: W_def)
  show ?thesis
    unfolding comparisons_by_key(2) [OF W(1) W(2)] comparisons_by_key(2) [OF W(2) W(1)]
    by auto
qed

lemma le_antisymmetric:
  assumes "HWAddress_le a (PyHW b) = Some True" and "HWAddress_le b (PyHW a) = Some True"
  shows "size_bits (cls a) = size_bits (cls b) \<and> p_address a = p_address b"
proof -
  define W where "W = size_bits (cls a) + size_bits (cls b)"
  have W: "size_bits (cls a) \<le> W" "size_bits (cls b) \<le> W"
    by (simp_all add: W_def)
  have "aligned_key W a = aligned_key W b \<and> size_bits (cls a) = size_bits (cls b)"
    using assms
    unfolding comparisons_by_key(2) [OF W(1) W(2)] comparisons_by_key(2) [OF W(2) W(1)]
    by auto
  then show ?thesis
    using aligned_key_same_size [of a b W] by simp
qed

lemma comparisons_consistent:
  "HWAddress_gt a (PyHW b) = HWAddress_lt b (PyHW a)"
  "HWAddress_ge a (PyHW b) = HWAddress_le b (PyHW a)"
  "HWAddress_le a (PyHW b) = Some (HWAddress_lt a (PyHW b) = Some True
      \<or> (size_bits (cls a) = size_bits (cls b) \<and> p_address a = p_address b))"
  "HWAddress_lt a (PyHW b) = Some (HWAddress_le b (PyHW a) \<noteq> Some True)"
proof -
  define W where "W = size_bits (cls a) + size_bits (cls b)"
  have W: "size_bits (cls a) \<le> W" "size_bits (cls b) \<le> W"
    by (simp_all add: W_def)
  note ab = comparisons_by_key [OF W(1) W(2)] and ba = comparisons_by_key [OF W(2) W(1)]
  show "HWAddress_gt a (PyHW b) = HWAddress_lt b (PyHW a)"
    unfolding ab ba by auto
  show "HWAddress_ge a (PyHW b) = HWAddress_le b (PyHW a)"
    unfolding ab ba by auto
  show "HWAddress_le a (PyHW b) = Some (HWAddress_lt a (PyHW b) = Some True
      \<or> (size_bits (cls a) = size_bits (cls b) \<and> p_address a = p_address b))"
    unfolding ab ba using aligned_key_same_size [of a b W]
    by (cases "size_bits (cls a) = size_bits (cls b)") auto
  show "HWAddress_lt a (PyHW b) = Some (HWAddress_le b (PyHW a) \<noteq> Some True)"
    unfolding ab ba by auto
qed

text \<open>
  C3, as the specification states it: \<open>a \<le> b\<close> and \<open>b \<le> a\<close> imply that \<open>a\<close> equals
  \<open>b\<close>. An \<open>OUI\<close> and a value of the unrelated class \<open>Class24\<close> of test.py with the
  same 24 bits are each below the other, and they are not equal.
\<close>

theorem le_antisymmetric_unrelated_kind_counterexample:
  "\<not> (HWAddress_le \<lparr>cls = OUI, p_address = 66051\<rparr> (PyHW \<lparr>cls = Class24, p_address = 66051\<rparr>)
          = Some True
      \<and> HWAddress_le \<lparr>cls = Class24, p_address = 66051\<rparr> (PyHW \<lparr>cls = OUI, p_address = 66051\<rparr>)
          = Some True
      \<longrightarrow> HWAddress_eq \<lparr>cls = OUI, p_address = 66051\<rparr> (PyHW \<lparr>cls = Class24, p_address = 66051\<rparr>)
        \<or> operator_eq \<lparr>cls = OUI, p_address = 66051\<rparr> \<lparr>cls = Class24, p_address = 66051\<rparr>)"
  by (simp add: HWAddress_le_def HWAddress_eq_def operator_eq_def aligned_address_integers_def
      HWAddress_int_def isinstance_def OUI_def Class24_def)

text \<open>
  C3, amended: the comparisons are a total order of the values of all kinds. \<open><\<close> is
  irreflexive and transitive; \<open>\<le>\<close> is total, and antisymmetric up to the size and the
  integer: \<open>a \<le> b\<close> and \<open>b \<le> a\<close> imply that the two sizes and the two integers are the
  same, and that \<open>a\<close> equals \<open>b\<close> when the two are of the same kind; \<open>>\<close> and \<open>\<ge>\<close> are the
  converses of \<open><\<close> and \<open>\<le>\<close>, \<open>\<le>\<close> is \<open><\<close> or the same size and integer, \<open><\<close> is the
  negation of the converse of \<open>\<le>\<close>; and each of the four is the lexicographic comparison
  of the pairs of the aligned integer and the size.
\<close>

theorem comparisons_total_order:
  "HWAddress_lt a (PyHW a) = Some False
   \<and> (HWAddress_lt a (PyHW b) = Some True \<and> HWAddress_lt b (PyHW c) = Some True
        \<longrightarrow> HWAddress_lt a (PyHW c) = Some True)
   \<and> (HWAddress_le a (PyHW b) = Some True \<or> HWAddress_le b (PyHW a) = Some True)
   \<and> (HWAddress_le a (PyHW b) = Some True \<and> HWAddress_le b (PyHW a) = Some True
        \<longrightarrow> size_bits (cls a) = size_bits (cls b) \<and> p_address a = p_address b
            \<and> (cls a = cls b \<longrightarrow> HWAddress_eq a (PyHW b) \<and> operator_eq a b))
   \<and> HWAddress_gt a (PyHW b) = HWAddress_lt b (PyHW a)
   \<and> HWAddress_ge a (PyHW b) = HWAddress_le b (PyHW a)
   \<and> HWAddress_le a (PyHW b) = Some (HWAddress_lt a (PyHW b) = Some True
        \<or> (size_bits (cls a) = size_bits (cls b) \<and> p_address a = p_address b))
   \<and> HWAddress_lt a (PyHW b) = Some (HWAddress_le b (PyHW a) \<noteq> Some True)
   \<and> HWAddress_lt a (PyHW b) =
        Some (fst (aligned_address_integers a b) < snd (aligned_address_integers a b)
          \<or> (fst (aligned_address_integers a b) = snd (aligned_address_integers a b)
             \<and> size_bits (cls a) < size_bits (cls b)))
   \<and> HWAddress_le a (PyHW b) =
        Some (fst (aligned_address_integers a b) < snd (aligned_address_integers a b)
          \<or> (fst (aligned_address_integers a b) = snd (aligned_address_integers a b)
             \<and> size_bits (cls a) \<le> size_bits (cls b)))
   \<and> HWAddress_gt a (PyHW b) =
        Some (fst (aligned_address_integers a b) > snd (aligned_address_integers a b)
          \<or> (fst (aligned_address_integers a b) = snd (aligned_address_integers a b)
             \<and> size_bits (cls a) > size_bits (cls b)))
   \<and> HWAddress_ge a (PyHW b) =
        Some (fst (aligned_address_integers a b) > snd (aligned_address_integers a b)
          \<or> (fst (aligned_address_integers a b) = snd (aligned_address_integers a b)
             \<and> size_bits (cls a) \<ge> size_bits (cls b)))"
proof (intro conjI impI)
  show "HWAddress_lt a (PyHW a) = Some False"
    by (rule lt_irreflexive)
  show "HWAddress_lt a (PyHW c) = Some True"
    if "HWAddress_lt a (PyHW b) = Some True \<and> HWAddress_lt b (PyHW c) = Some True"
    using that lt_transitive [of a b c] by simp
  show "HWAddress_le a (PyHW b) = Some True \<or> HWAddress_le b (PyHW a) = Some True"
    by (rule le_total)
  show "size_bits (cls a) = size_bits (cls b)"
    if "HWAddress_le a (PyHW b) = Some True \<and> HWAddress_le b (PyHW a) = Some True"
    using that le_antisymmetric [of a b] by simp
  show "p_address a = p_address b"
    if "HWAddress_le a (PyHW b) = Some True \<and> HWAddress_le b (PyHW a) = Some True"
    using that le_antisymmetric [of a b] by simp
  show "HWAddress_eq a (PyHW b)"
    if "HWAddress_le a (PyHW b) = Some True \<and> HWAddress_le b (PyHW a) = Some True"
      and "cls a = cls b"
    using that le_antisymmetric [of a b] by (simp add: HWAddress_eq_def isinstance_def)
  show "operator_eq a b"
    if "HWAddress_le a (PyHW b) = Some True \<and> HWAddress_le b (PyHW a) = Some True"
      and "cls a = cls b"
    using that le_antisymmetric [of a b]
    by (simp add: operator_eq_def HWAddress_eq_def isinstance_def)
  show "HWAddress_gt a (PyHW b) = HWAddress_lt b (PyHW a)"
    by (rule comparisons_consistent)
  show "HWAddress_ge a (PyHW b) = HWAddress_le b (PyHW a)"
    by (rule comparisons_consistent)
  show "HWAddress_le a (PyHW b) = Some (HWAddress_lt a (PyHW b) = Some True
        \<or> (size_bits (cls a) = size_bits (cls b) \<and> p_address a = p_address b))"
    by (rule comparisons_consistent)
  show "HWAddress_lt a (PyHW b) = Some (HWAddress_le b (PyHW a) \<noteq> Some True)"
    by (rule comparisons_consistent)
  show "HWAddress_lt a (PyHW b) =
        Some (fst (aligned_address_integers a b) < snd (aligned_address_integers a b)
          \<or> (fst (aligned_address_integers a b) = snd (aligned_address_integers a b)
             \<and> size_bits (cls a) < size_bits (cls b)))"
    by (simp add: HWAddress_lt_def split_beta)
  show "HWAddress_le a (PyHW b) =
        Some (fst (aligned_address_integers a b) < snd (aligned_address_integers a b)
          \<or> (fst (aligned_address_integers a b) = snd (aligned_address_integers a b)
             \<and> size_bits (cls a) \<le> size_bits (cls b)))"
    by (simp add: HWAddress_le_def split_beta)
  show "HWAddress_gt a (PyHW b) =
        Some (fst (aligned_address_integers a b) > snd (aligned_address_integers a b)
          \<or> (fst (aligned_address_integers a b) = snd (aligned_address_integers a b)
             \<and> size_bits (cls a) > size_bits (cls b)))"
    by (simp add: HWAddress_gt_def split_beta)
  show "HWAddress_ge a (PyHW b) =
        Some (fst (aligned_address_integers a b) > snd (aligned_address_integers a b)
          \<or> (fst (aligned_address_integers a b) = snd (aligned_address_integers a b)
             \<and> size_bits (cls a) \<ge> size_bits (cls b)))"
    by (simp add: HWAddress_ge_def split_beta)
qed

theorem comparisons_total_order_witness:
  "HWAddress_lt \<lparr>cls = OUI, p_address = 66051\<rparr> (PyHW \<lparr>cls = EUI48, p_address = 1108152157446\<rparr>)
     = Some True
   \<and> HWAddress_lt \<lparr>cls = EUI48, p_address = 1108152157446\<rparr> (PyHW \<lparr>cls = OUI, p_address = 66052\<rparr>)
     = Some True
   \<and> HWAddress_lt \<lparr>cls = OUI, p_address = 66051\<rparr> (PyHW \<lparr>cls = OUI, p_address = 66052\<rparr>)
     = Some True
   \<and> HWAddress_gt \<lparr>cls = EUI48, p_address = 1108152157446\<rparr> (PyHW \<lparr>cls = OUI, p_address = 66051\<rparr>)
     = Some True"
proof -
  let ?a = "\<lparr>cls = OUI, p_address = 66051\<rparr>" and ?b = "\<lparr>cls = EUI48, p_address = 1108152157446\<rparr>"
    and ?c = "\<lparr>cls = OUI, p_address = 66052\<rparr>"
  have ab: "HWAddress_lt ?a (PyHW ?b) = Some True"
    by (simp add: HWAddress_lt_def aligned_address_integers_def HWAddress_int_def
        OUI_def EUI48_def push_bit_eq_mult)
  have bc: "HWAddress_lt ?b (PyHW ?c) = Some True"
    by (simp add: HWAddress_lt_def aligned_address_integers_def HWAddress_int_def
        OUI_def EUI48_def push_bit_eq_mult)
  have ac: "HWAddress_lt ?a (PyHW ?c) = Some True"
    using ab bc comparisons_total_order [of ?a ?b ?c] by blast
  have "HWAddress_gt ?b (PyHW ?a) = HWAddress_lt ?a (PyHW ?b)"
    using comparisons_total_order [of ?b ?a ?c] by blast
  then have gt: "HWAddress_gt ?b (PyHW ?a) = Some True"
    by (simp only: ab)
  show ?thesis
    by (intro conjI) (fact ab bc ac gt)+
qed

section \<open>The format matcher\<close>

lemma int16_hex:
  "c \<in> set HEX_DIGITS \<Longrightarrow> \<exists>d. int16 c = Some d \<and> 0 \<le> d \<and> d < 16"
  by (auto simp: HEX_DIGITS_def int16_def)

lemma int16_not_hex:
  assumes "c \<notin> set HEX_DIGITS"
  shows "int16 c = None"
proof (rule ccontr)
  define n where "n = (of_char c :: nat)"
  assume "int16 c \<noteq> None"
  then have "48 \<le> n \<and> n \<le> 57 \<or> 65 \<le> n \<and> n \<le> 70 \<or> 97 \<le> n \<and> n \<le> 102"
    by (simp add: int16_def Let_def n_def split: if_splits)
  then have "n \<in> {48, 49, 50, 51, 52, 53, 54, 55, 56, 57, 65, 66, 67, 68, 69, 70,
      97, 98, 99, 100, 101, 102}"
    by (simp only: insert_iff empty_iff) arith
  then have "n \<in> of_char ` set HEX_DIGITS"
    by (simp add: HEX_DIGITS_def)
  then have "c \<in> set HEX_DIGITS"
    unfolding n_def by (simp only: inj_image_mem_iff [OF inj_of_char])
  with assms show False by simp
qed


lemma normalize_eq:
  "normalize address c =
     Some (case int16 c of Some digit \<Rightarrow> address * 16 + digit | None \<Rightarrow> address,
           if c \<in> set HEX_DIGITS then CHR ''x'' else c)"
proof (cases "c \<in> set HEX_DIGITS")
  case True
  then obtain d where "int16 c = Some d"
    using int16_hex by blast
  with True show ?thesis
    by (simp add: normalize_def push_bit_eq_mult)
next
  case False
  then show ?thesis
    by (simp add: normalize_def int16_not_hex)
qed

lemma narrow_start_bounds:
  "start \<le> end \<Longrightarrow>
   start \<le> narrow_start candidates index character start end
   \<and> narrow_start candidates index character start end \<le> end"
proof (induction candidates index character start "end" rule: narrow_start.induct)
  case (1 candidates index character start "end")
  note unfold = narrow_start.simps [of candidates index character start "end"]
  show ?case
    using "1.IH" "1.prems" by (auto simp: unfold)
qed

lemma narrow_start_below:
  "start \<le> j \<Longrightarrow> j < narrow_start candidates index character start end \<Longrightarrow>
   fst (candidates ! j) ! index < character"
proof (induction candidates index character start "end" rule: narrow_start.induct)
  case (1 candidates index character start "end")
  note unfold = narrow_start.simps [of candidates index character start "end"]
  show ?case
  proof (cases "j = start")
    case True
    with "1.prems" show ?thesis
      by (auto simp: unfold split: if_splits)
  next
    case False
    with "1.prems" have "start + 1 \<le> j"
      by simp
    with "1.IH" "1.prems" show ?thesis
      by (auto simp: unfold split: if_splits)
  qed
qed

lemma narrow_start_stops:
  "narrow_start candidates index character start end < end \<Longrightarrow>
   \<not> fst (candidates ! narrow_start candidates index character start end) ! index < character"
proof (induction candidates index character start "end" rule: narrow_start.induct)
  case (1 candidates index character start "end")
  note unfold = narrow_start.simps [of candidates index character start "end"]
  show ?case
    using "1.IH" "1.prems" by (auto simp: unfold split: if_splits)
qed

lemma narrow_end_bounds:
  "start \<le> end \<Longrightarrow>
   start \<le> narrow_end candidates index character start end
   \<and> narrow_end candidates index character start end \<le> end"
proof (induction candidates index character start "end" rule: narrow_end.induct)
  case (1 candidates index character start "end")
  note unfold = narrow_end.simps [of candidates index character start "end"]
  show ?case
  proof (cases "start < end \<and> fst (candidates ! (end - 1)) ! index > character")
    case True
    then have "start \<le> end - 1"
      by linarith
    with "1.IH" True show ?thesis
      by (auto simp: unfold)
  next
    case False
    with "1.prems" show ?thesis
      by (auto simp: unfold)
  qed
qed

lemma narrow_end_above:
  "narrow_end candidates index character start end \<le> j \<Longrightarrow> j < end \<Longrightarrow>
   fst (candidates ! j) ! index > character"
proof (induction candidates index character start "end" rule: narrow_end.induct)
  case (1 candidates index character start "end")
  note unfold = narrow_end.simps [of candidates index character start "end"]
  show ?case
  proof (cases "j = end - 1")
    case True
    with "1.prems" show ?thesis
      by (auto simp: unfold split: if_splits)
  next
    case False
    with "1.prems" have "j < end - 1"
      by simp
    with "1.IH" "1.prems" show ?thesis
      by (auto simp: unfold split: if_splits)
  qed
qed

lemma narrow_end_stops:
  "start < narrow_end candidates index character start end \<Longrightarrow>
   \<not> fst (candidates ! (narrow_end candidates index character start end - 1)) ! index
       > character"
proof (induction candidates index character start "end" rule: narrow_end.induct)
  case (1 candidates index character start "end")
  note unfold = narrow_end.simps [of candidates index character start "end"]
  show ?case
    using "1.IH" "1.prems" by (auto simp: unfold split: if_splits)
qed

lemma lex_le_nth:
  fixes xs ys :: "'a::linorder list"
  shows "xs \<le> ys \<Longrightarrow> take i xs = take i ys \<Longrightarrow> i < length xs \<Longrightarrow> i < length ys \<Longrightarrow>
    xs ! i \<le> ys ! i"
proof (induction i arbitrary: xs ys)
  case 0
  then show ?case
    by (cases xs; cases ys) auto
next
  case (Suc i)
  then show ?case
    by (cases xs; cases ys) auto
qed


lemma window_step:
  assumes sorted: "sorted (map fst candidates)"
    and lens: "\<forall>k\<in>set (map fst candidates). length k = length t"
    and i: "i < length t"
    and win: "window (map fst candidates) t i s e"
  defines "s' \<equiv> narrow_start candidates i (t ! i) s e"
  defines "e' \<equiv> narrow_end candidates i (t ! i) s' e"
  shows "window (map fst candidates) t (Suc i) s' e'"
proof -
  let ?k = "\<lambda>j. fst (candidates ! j) ! i"
  have se: "s \<le> e" "e \<le> length candidates"
    using win by (simp_all add: window_def)
  have inwin: "(s \<le> j \<and> j < e) = (take i (fst (candidates ! j)) = take i t)"
    if "j < length candidates" for j
    using win that by (simp add: window_def)
  have s': "s \<le> s'" "s' \<le> e"
    using narrow_start_bounds [OF se(1)] by (simp_all add: s'_def)
  have e': "s' \<le> e'" "e' \<le> e"
    using narrow_end_bounds [OF s'(2)] by (simp_all add: e'_def)
  have len: "length (fst (candidates ! j)) = length t" if "j < length candidates" for j
    using lens that by simp
  have mono: "?k j1 \<le> ?k j2" if "s \<le> j1" "j1 \<le> j2" "j2 < e" for j1 j2
  proof -
    have lt: "j1 < length candidates" "j2 < length candidates"
      using that se by simp_all
    have "map fst candidates ! j1 \<le> map fst candidates ! j2"
      using sorted that(2) lt(2) by (intro sorted_nth_mono) simp_all
    then have "fst (candidates ! j1) \<le> fst (candidates ! j2)"
      using lt by simp
    moreover have "take i (fst (candidates ! j1)) = take i (fst (candidates ! j2))"
      using inwin [OF lt(1)] inwin [OF lt(2)] that by simp
    ultimately show ?thesis
      using len [OF lt(1)] len [OF lt(2)] i by (intro lex_le_nth) simp_all
  qed
  have step: "(take (Suc i) xs = take (Suc i) t) = (take i xs = take i t \<and> xs ! i = t ! i)"
    if "length xs = length t" for xs :: string
    using i that by (simp add: take_Suc_conv_app_nth)
  have "(s' \<le> j \<and> j < e') = (take (Suc i) (fst (candidates ! j)) = take (Suc i) t)"
    if j: "j < length candidates" for j
  proof
    assume inside: "s' \<le> j \<and> j < e'"
    then have "s \<le> j" "j < e"
      using s' e' by simp_all
    then have pre: "take i (fst (candidates ! j)) = take i t"
      using inwin [OF j] by simp
    have "s' < e"
      using inside e' by simp
    then have low: "\<not> ?k s' < t ! i"
      unfolding s'_def by (rule narrow_start_stops)
    have "s' < e'"
      using inside by simp
    then have high: "\<not> ?k (e' - 1) > t ! i"
      unfolding e'_def by (rule narrow_end_stops)
    have "?k s' \<le> ?k j"
      using inside s' \<open>j < e\<close> by (intro mono) auto
    moreover have "?k j \<le> ?k (e' - 1)"
      using inside e' \<open>s \<le> j\<close> by (intro mono) auto
    ultimately have "?k j = t ! i"
      using low high by simp
    then show "take (Suc i) (fst (candidates ! j)) = take (Suc i) t"
      using step [OF len [OF j]] pre by simp
  next
    assume "take (Suc i) (fst (candidates ! j)) = take (Suc i) t"
    then have pre: "take i (fst (candidates ! j)) = take i t" and kj: "?k j = t ! i"
      using step [OF len [OF j]] by simp_all
    have old: "s \<le> j" "j < e"
      using inwin [OF j] pre by simp_all
    have "\<not> j < s'"
      using narrow_start_below [of s j candidates i "t ! i" e] old kj
      by (auto simp: s'_def)
    moreover have "\<not> e' \<le> j"
      using narrow_end_above [of candidates i "t ! i" s' e j] old kj
      by (auto simp: e'_def)
    ultimately show "s' \<le> j \<and> j < e'"
      by simp
  qed
  then show ?thesis
    using s' e' se by (simp add: window_def)
qed

lemma parse_loop_unfold:
  assumes "index < length input"
  shows "parse_loop input candidates index address start end =
     (let character = normalized input ! index;
          start' = narrow_start candidates index character start end;
          end' = narrow_end candidates index character start' end
      in if start' \<ge> end' then Inl (ValueError Cannot_parse)
         else parse_loop input candidates (Suc index)
                (accumulate [input ! index] address) start' end')"
  using assms
  by (subst parse_loop.simps) (simp add: normalize_eq normalized_def accumulate_def Let_def)

lemma parse_loop_done:
  "\<not> index < length input \<Longrightarrow>
   parse_loop input candidates index address start end = Inr (address, start, end)"
  by (subst parse_loop.simps) simp

lemma accumulate_Cons: "accumulate (c # cs) a = accumulate cs (accumulate [c] a)"
  by (simp add: accumulate_def)

lemma parse_loop_window:
  assumes "sorted (map fst candidates)"
    and "\<forall>k\<in>set (map fst candidates). length k = length input"
    and "index \<le> length input"
    and "window (map fst candidates) (normalized input) index start end"
  shows "case parse_loop input candidates index address start end of
      Inl err \<Rightarrow> err = ValueError Cannot_parse \<and> normalized input \<notin> set (map fst candidates)
    | Inr (address', start', end') \<Rightarrow>
        address' = accumulate (drop index input) address
        \<and> window (map fst candidates) (normalized input) (length input) start' end'
        \<and> (start < end \<or> index < length input \<longrightarrow> start' < end')"
  using assms(3,4)
proof (induction "length input - index" arbitrary: index address start "end")
  case 0
  then have "\<not> index < length input" "index = length input"
    by simp_all
  with "0.prems" show ?case
    by (simp add: parse_loop_done accumulate_def)
next
  case (Suc n)
  let ?t = "normalized input"
  let ?s = "narrow_start candidates index (?t ! index) start end"
  let ?e = "narrow_end candidates index (?t ! index) ?s end"
  have index: "index < length input"
    using Suc.hyps(2) by simp
  have lens: "\<forall>k\<in>set (map fst candidates). length k = length ?t"
    using assms(2) by (simp add: normalized_def)
  have win: "window (map fst candidates) ?t (Suc index) ?s ?e"
    using index Suc.prems(2)
    by (intro window_step [OF assms(1) lens]) (simp_all add: normalized_def)
  show ?case
  proof (cases "?e \<le> ?s")
    case True
    have "?t \<notin> set (map fst candidates)"
    proof
      assume "?t \<in> set (map fst candidates)"
      then obtain j where j: "j < length candidates" "map fst candidates ! j = ?t"
        by (auto simp: in_set_conv_nth)
      then have "?s \<le> j \<and> j < ?e"
        using win by (simp add: window_def)
      with True show False
        by simp
    qed
    with True index show ?thesis
      by (simp add: parse_loop_unfold Let_def)
  next
    case False
    have n: "n = length input - Suc index" "Suc index \<le> length input"
      using Suc.hyps(2) by simp_all
    note IH = Suc.hyps(1) [OF n win, of "accumulate [input ! index] address"]
    have "drop index input = input ! index # drop (Suc index) input"
      using index by (simp add: Cons_nth_drop_Suc)
    then have acc: "accumulate (drop index input) address
      = accumulate (drop (Suc index) input) (accumulate [input ! index] address)"
      by (simp only: accumulate_Cons [of "input ! index" "drop (Suc index) input" address])
    have unfold: "parse_loop input candidates index address start end =
      parse_loop input candidates (Suc index) (accumulate [input ! index] address) ?s ?e"
      using index False by (simp add: parse_loop_unfold Let_def)
    show ?thesis
    proof (cases "parse_loop input candidates (Suc index)
        (accumulate [input ! index] address) ?s ?e")
      case (Inl err)
      with IH show ?thesis
        unfolding unfold acc by simp
    next
      case (Inr result)
      obtain address' start' end' where "result = (address', start', end')"
        by (cases result)
      with Inr IH False show ?thesis
        unfolding unfold acc by simp
    qed
  qed
qed

lemma map_of_setdefault:
  "map_of (setdefault d k v) x =
     (case map_of d x of Some y \<Rightarrow> Some y | None \<Rightarrow> if x = k then Some v else None)"
proof (cases "k \<in> set (map fst d)")
  case True
  then have "map_of d k \<noteq> None"
    by (simp add: map_of_eq_None_iff)
  with True show ?thesis
    by (auto simp: setdefault_def split: option.splits)
next
  case False
  then show ?thesis
    by (auto simp: setdefault_def map_add_def split: option.splits)
qed

lemma distinct_setdefault:
  "distinct (map fst d) \<Longrightarrow> distinct (map fst (setdefault d k v))"
  by (auto simp: setdefault_def)

lemma lengths_setdefault:
  "\<forall>k\<in>set (map fst d). length k = len \<Longrightarrow> length f = len \<Longrightarrow>
   \<forall>k\<in>set (map fst (setdefault d f c)). length k = len"
  by (auto simp: setdefault_def)

lemma map_of_collect_formats:
  "map_of (collect_formats d c fs len) x =
     (case map_of d x of Some y \<Rightarrow> Some y
      | None \<Rightarrow> if x \<in> set fs \<and> length x = len then Some c else None)"
proof (induction fs arbitrary: d)
  case Nil
  show ?case
    by (simp split: option.splits)
next
  case (Cons f fs)
  show ?case
  proof (cases "length f = len")
    case True
    then have "map_of (collect_formats d c (f # fs) len) x =
        (case map_of (setdefault d f c) x of Some y \<Rightarrow> Some y
         | None \<Rightarrow> if x \<in> set fs \<and> length x = len then Some c else None)"
      by (simp add: Cons.IH)
    with True show ?thesis
      by (cases "map_of d x") (auto simp: map_of_setdefault)
  next
    case False
    then have "map_of (collect_formats d c (f # fs) len) x =
        (case map_of d x of Some y \<Rightarrow> Some y
         | None \<Rightarrow> if x \<in> set fs \<and> length x = len then Some c else None)"
      by (simp add: Cons.IH)
    with False show ?thesis
      by (cases "map_of d x") auto
  qed
qed

lemma distinct_collect_formats:
  "distinct (map fst d) \<Longrightarrow> distinct (map fst (collect_formats d c fs len))"
  by (induction fs arbitrary: d) (simp_all add: distinct_setdefault)

lemma lengths_collect_formats:
  "\<forall>k\<in>set (map fst d). length k = len \<Longrightarrow>
   \<forall>k\<in>set (map fst (collect_formats d c fs len)). length k = len"
proof (induction fs arbitrary: d)
  case Nil
  then show ?case by simp
next
  case (Cons f fs)
  show ?case
  proof (cases "length f = len")
    case True
    from lengths_setdefault [OF Cons.prems True] have
      "\<forall>k\<in>set (map fst (setdefault d f c)). length k = len" .
    from Cons.IH [OF this] True show ?thesis
      by simp
  next
    case False
    from Cons.IH [OF Cons.prems] False show ?thesis
      by simp
  qed
qed


lemma map_of_collect_classes:
  "map_of (collect_classes d cs len) x =
     (case map_of d x of Some y \<Rightarrow> Some y
      | None \<Rightarrow> if length x = len then find (\<lambda>K. x \<in> set (formats K)) cs else None)"
proof (induction cs arbitrary: d)
  case Nil
  show ?case
    by (simp split: option.splits)
next
  case (Cons c cs)
  have "map_of (collect_classes d (c # cs) len) x =
      (case map_of (collect_formats d c (formats c) len) x of Some y \<Rightarrow> Some y
       | None \<Rightarrow> if length x = len then find (\<lambda>K. x \<in> set (formats K)) cs else None)"
    by (simp add: Cons.IH)
  then show ?case
    by (cases "map_of d x") (auto simp: map_of_collect_formats)
qed

lemma distinct_collect_classes:
  "distinct (map fst d) \<Longrightarrow> distinct (map fst (collect_classes d cs len))"
  by (induction cs arbitrary: d) (simp_all add: distinct_collect_formats)

lemma lengths_collect_classes:
  "\<forall>k\<in>set (map fst d). length k = len \<Longrightarrow>
   \<forall>k\<in>set (map fst (collect_classes d cs len)). length k = len"
proof (induction cs arbitrary: d)
  case Nil
  then show ?case by simp
next
  case (Cons c cs)
  from Cons.IH [OF lengths_collect_formats [OF Cons.prems]] show ?case
    by simp
qed

lemma sorted_candidates:
  fixes xs :: "(string \<times> hwclass) list"
  assumes "distinct (map fst xs)"
  shows "sorted (map fst (sort_key fst xs))"
    and "distinct (map fst (sort_key fst xs))"
    and "map_of (sort_key fst xs) = map_of xs"
    and "set (map fst (sort_key fst xs)) = set (map fst xs)"
proof -
  show "sorted (map fst (sort_key fst xs))"
    by (rule sorted_sort_key)
  show d: "distinct (map fst (sort_key fst xs))"
    using assms by (simp add: distinct_map)
  show "map_of (sort_key fst xs) = map_of xs"
    using map_of_inject_set [OF d assms] by simp
  show "set (map fst (sort_key fst xs)) = set (map fst xs)"
    by simp
qed

lemma window_start: "window keys t 0 0 (length keys)"
  by (simp add: window_def)

lemma window_full:
  assumes "window keys t (length t) s e" and "\<forall>k\<in>set keys. length k = length t"
    and "j < length keys"
  shows "(s \<le> j \<and> j < e) = (keys ! j = t)"
  using assms by (simp add: window_def)

lemma parse_impl_eq:
  "parse_impl input classes =
     (if input = [] then Inl (ValueError Empty_string)
      else case find (\<lambda>K. normalized input \<in> set (formats K)) classes of
        None \<Rightarrow> Inl (ValueError Cannot_parse)
      | Some K \<Rightarrow>
          Inr (drop_bit (nat ((4 - int (size_bits K)) AND 3)) (accumulate input 0), K))"
proof (cases "input = []")
  case True
  then show ?thesis
    by (simp add: parse_impl_def)
next
  case False
  define t where "t = normalized input"
  define unsorted where "unsorted = collect_classes [] classes (length input)"
  define candidates where "candidates = sort_key fst unsorted"
  have lt: "length t = length input"
    by (simp add: t_def normalized_def)
  have du: "distinct (map fst unsorted)"
    unfolding unsorted_def by (rule distinct_collect_classes) simp
  note sc = sorted_candidates [OF du, folded candidates_def]
  have "\<forall>k\<in>set (map fst unsorted). length k = length input"
    unfolding unsorted_def by (rule lengths_collect_classes) simp
  then have lens: "\<forall>k\<in>set (map fst candidates). length k = length input"
    using sc(4) by simp
  have lookup: "map_of candidates t = find (\<lambda>K. t \<in> set (formats K)) classes"
    using sc(3) lt by (simp add: unsorted_def map_of_collect_classes)
  have win0: "window (map fst candidates) (normalized input) 0 0 (length candidates)"
    using window_start [of "map fst candidates"] by simp
  note loop = parse_loop_window [OF sc(1) lens _ win0, of 0, simplified]
  have impl: "parse_impl input classes =
      (case parse_loop input candidates 0 0 0 (length candidates) of
         Inl e \<Rightarrow> Inl e
       | Inr (address, start, end) \<Rightarrow>
           Inr (drop_bit (nat ((4 - int (size_bits (snd (candidates ! start)))) AND 3)) address,
                snd (candidates ! start)))"
    using False
    by (simp add: parse_impl_def Let_def candidates_def unsorted_def
        less_Suc_eq_0_disj split: sum.splits prod.splits)
  show ?thesis
  proof (cases "parse_loop input candidates 0 0 0 (length candidates)")
    case (Inl err)
    with loop have "err = ValueError Cannot_parse" "t \<notin> set (map fst candidates)"
      by (simp_all add: t_def)
    then have "map_of candidates t = None"
      by (simp add: map_of_eq_None_iff)
    then have "find (\<lambda>K. t \<in> set (formats K)) classes = None"
      using lookup by simp
    with False Inl \<open>err = ValueError Cannot_parse\<close> show ?thesis
      unfolding impl by (simp add: t_def)
  next
    case (Inr result)
    obtain address start "end" where result: "result = (address, start, end)"
      by (cases result)
    have props: "address = accumulate input 0"
      "window (map fst candidates) t (length input) start end" "start < end"
      using loop Inr result False by (simp_all add: t_def)
    have se: "start < length candidates"
      using props(2,3) by (simp add: window_def)
    have "map fst candidates ! start = t"
      using window_full [of "map fst candidates" t start "end" start] props(2,3) lens lt se
      by simp
    then have "fst (candidates ! start) = t"
      using se by simp
    then have "(t, snd (candidates ! start)) \<in> set candidates"
      using se by (metis nth_mem prod.collapse)
    then have "map_of candidates t = Some (snd (candidates ! start))"
      using sc(2) by simp
    then have "find (\<lambda>K. t \<in> set (formats K)) classes = Some (snd (candidates ! start))"
      using lookup by simp
    with False Inr result props(1) show ?thesis
      unfolding impl by (simp add: t_def)
  qed
qed




text \<open>
  C4. The matcher is not the reference matcher on an input with the letter \<open>x\<close>: the
  letter is compared with the wildcard as it is and found equal, so \<open>xx-xx-xx\<close> is parsed
  as the \<open>OUI\<close> with the integer 0, where no template has a hexadecimal digit of the
  input at every wildcard.
\<close>

theorem parse_impl_accepts_letter_x:
  "parse_impl ''xx-xx-xx'' [OUI] = Inr (0, OUI)
   \<and> reference_match ''xx-xx-xx'' [OUI] = None
   \<and> HWAddress_init OUI (PyStr ''xx-xx-xx'') = Inr \<lparr>cls = OUI, p_address = 0\<rparr>"
proof -
  have p: "parse_impl ''xx-xx-xx'' [OUI] = Inr (0, OUI)"
    by (simp add: parse_impl_eq normalized_def accumulate_def HEX_DIGITS_def int16_def OUI_def
        and_small_masks)
  have "reference_match ''xx-xx-xx'' [OUI] = None"
    by (simp add: reference_match_def structurally_matches_def HEX_DIGITS_def OUI_def)
  with p show ?thesis
    by (simp add: HWAddress_init_def)
qed

text \<open>
  C6. The text of a value is not parsed back when the format has a literal hexadecimal
  digit: the class \<open>Tag8\<close> renders the integer 90 as \<open>id-5A\<close>, and the constructor of
  \<open>Tag8\<close> rejects \<open>id-5A\<close>, since the literal \<open>d\<close> of the input is taken for a digit.
\<close>

theorem text_round_trip_fails_hex_literal:
  "valid_kind Tag8
   \<and> HWAddress_init Tag8 (PyInt 90) = Inr \<lparr>cls = Tag8, p_address = 90\<rparr>
   \<and> HWAddress_str \<lparr>cls = Tag8, p_address = 90\<rparr> = Inr ''id-5A''
   \<and> HWAddress_init Tag8 (PyStr ''id-5A'') = Inl (ValueError Cannot_parse)"
proof -
  have v: "valid_kind Tag8"
    by (simp add: valid_kind_def Tag8_def)
  have i: "HWAddress_init Tag8 (PyInt 90) = Inr \<lparr>cls = Tag8, p_address = 90\<rparr>"
    by (simp add: HWAddress_init_def Tag8_def)
  have s: "HWAddress_str \<lparr>cls = Tag8, p_address = 90\<rparr> = Inr ''id-5A''"
    by (simp add: HWAddress_str_def render_def Tag8_def and_small_masks drop_bit_eq_div
        HEX_DIGITS_def)
  have "parse_impl ''id-5A'' [Tag8] = Inl (ValueError Cannot_parse)"
    by (simp add: parse_impl_eq normalized_def HEX_DIGITS_def Tag8_def)
  then have p: "HWAddress_init Tag8 (PyStr ''id-5A'') = Inl (ValueError Cannot_parse)"
    by (simp add: HWAddress_init_def)
  from v i s p show ?thesis
    by simp
qed

section \<open>The matcher on templates and inputs without the two defects\<close>

text \<open>
  Where the format has no literal hexadecimal digit, the text of a value is parsed back
  (\<open>round_trip_text_plain_literals\<close>); where moreover the input has no letter \<open>x\<close>, the
  matcher is the reference matcher of the specification (\<open>parse_impl_refines_reference\<close>).
\<close>

lemma normalized_simps:
  "normalized [] = []"
  "normalized (c # cs) = (if c \<in> set HEX_DIGITS then CHR ''x'' else c) # normalized cs"
  "normalized (xs @ ys) = normalized xs @ normalized ys"
  "normalized (rev xs) = rev (normalized xs)"
  "length (normalized xs) = length xs"
  by (simp_all add: normalized_def rev_map)

lemma accumulate_append: "accumulate (xs @ ys) a = accumulate ys (accumulate xs a)"
  by (simp add: accumulate_def)

lemma x_not_hex: "CHR ''x'' \<notin> set HEX_DIGITS"
  by (simp add: HEX_DIGITS_def)

lemma hex_digits_table:
  "\<forall>m<Suc (Suc (Suc (Suc (Suc (Suc (Suc (Suc (Suc (Suc (Suc (Suc (Suc (Suc (Suc (Suc 0))))))))))))))). HEX_DIGITS ! m \<in> set HEX_DIGITS \<and> int16 (HEX_DIGITS ! m) = Some (int m)"
  by (simp add: All_less_Suc HEX_DIGITS_def int16_def)

lemma hex_digit_of_nibble:
  assumes "0 \<le> k" and "k < 16"
  shows "HEX_DIGITS ! nat k \<in> set HEX_DIGITS" and "int16 (HEX_DIGITS ! nat k) = Some k"
proof -
  have "nat k < Suc (Suc (Suc (Suc (Suc (Suc (Suc (Suc (Suc (Suc (Suc (Suc (Suc (Suc (Suc (Suc 0)))))))))))))))"
    using assms by simp
  then have "HEX_DIGITS ! nat k \<in> set HEX_DIGITS
      \<and> int16 (HEX_DIGITS ! nat k) = Some (int (nat k))"
    using hex_digits_table by blast
  then show "HEX_DIGITS ! nat k \<in> set HEX_DIGITS" and "int16 (HEX_DIGITS ! nat k) = Some k"
    using assms by simp_all
qed

lemma str_loop_acc: "str_loop cs v acc = acc @ str_loop cs v []"
proof (induction cs arbitrary: v acc)
  case Nil
  show ?case by simp
next
  case (Cons c cs)
  show ?case
    using Cons.IH [of v "acc @ [c]"] Cons.IH [of v "[c]"]
      Cons.IH [of "drop_bit 4 v" "acc @ [HEX_DIGITS ! nat (v AND 15)]"]
      Cons.IH [of "drop_bit 4 v" "[HEX_DIGITS ! nat (v AND 15)]"]
    by (simp add: Let_def)
qed

lemma str_loop_Cons:
  "str_loop (c # cs) v [] =
     (if c = CHR ''x'' then HEX_DIGITS ! nat (v mod 16) # str_loop cs (v div 16) []
      else c # str_loop cs v [])"
  using str_loop_acc [of cs v "[c]"] str_loop_acc [of cs "drop_bit 4 v" "[HEX_DIGITS ! nat (v AND 15)]"]
  by (simp add: Let_def and_small_masks drop_bit_eq_div)

lemma length_str_loop: "length (str_loop cs v []) = length cs"
proof (induction cs arbitrary: v)
  case Nil
  show ?case by simp
next
  case (Cons c cs)
  show ?case
    unfolding str_loop_Cons by (simp add: Cons.IH)
qed

lemma normalized_str_loop:
  "plain_literals cs \<Longrightarrow> normalized (str_loop cs v []) = cs"
proof (induction cs arbitrary: v)
  case Nil
  show ?case by (simp add: normalized_simps)
next
  case (Cons c cs)
  have rest: "plain_literals cs" and c: "c = CHR ''x'' \<or> c \<notin> set HEX_DIGITS"
    using Cons.prems by (simp_all add: plain_literals_def)
  have nib: "HEX_DIGITS ! nat (v mod 16) \<in> set HEX_DIGITS"
    by (rule hex_digit_of_nibble) simp_all
  show ?case
    unfolding str_loop_Cons using c nib x_not_hex
    by (auto simp: normalized_simps Cons.IH [OF rest])
qed

lemma accumulate_str_loop:
  "plain_literals cs \<Longrightarrow> 0 \<le> v \<Longrightarrow>
   accumulate (rev (str_loop cs v [])) 0 = v mod 16 ^ count_list cs (CHR ''x'')"
proof (induction cs arbitrary: v)
  case Nil
  show ?case by (simp add: accumulate_def)
next
  case (Cons c cs)
  have rest: "plain_literals cs" and c: "c = CHR ''x'' \<or> c \<notin> set HEX_DIGITS"
    using Cons.prems(1) by (simp_all add: plain_literals_def)
  show ?case
  proof (cases "c = CHR ''x''")
    case True
    have digit: "int16 (HEX_DIGITS ! nat (v mod 16)) = Some (v mod 16)"
      by (rule hex_digit_of_nibble) simp_all
    have "0 \<le> v div 16"
      using Cons.prems(2) by simp
    from Cons.IH [OF rest this]
    have "accumulate (rev (str_loop (c # cs) v [])) 0
        = (v div 16 mod 16 ^ count_list cs (CHR ''x'')) * 16 + v mod 16"
      unfolding str_loop_Cons using True digit
      by (simp add: accumulate_append) (simp add: accumulate_def)
    also have "\<dots> = v mod 16 ^ Suc (count_list cs (CHR ''x''))"
      using zmod_zmult2_eq [of "16 ^ count_list cs (CHR ''x'')" v 16] by simp
    finally show ?thesis
      using True by simp
  next
    case False
    with c have "int16 c = None"
      by (simp add: int16_not_hex)
    with False Cons.IH [OF rest Cons.prems(2)] show ?thesis
      unfolding str_loop_Cons by (simp add: accumulate_append) (simp add: accumulate_def)
  qed
qed


lemma plain_literals_rev: "plain_literals (rev f) = plain_literals f"
  by (simp add: plain_literals_def list_all_iff)

lemma count_list_rev: "count_list (rev f) c = count_list f c"
  by (induction f) simp_all

lemma round_trip_text_plain_literals:
  assumes "valid_kind K" and "f \<in> set (formats K)" and "plain_literals f"
    and "0 \<le> n" and "n < 2 ^ size_bits K"
  shows "HWAddress_init K (PyStr (render f (size_bits K) n)) = Inr \<lparr>cls = K, p_address = n\<rparr>"
proof -
  define off where "off = nat ((4 - int (size_bits K)) mod 4)"
  define k where "k = (size_bits K + 3) div 4"
  define v where "v = n * 2 ^ off"
  define input where "input = rev (str_loop (rev f) v [])"
  have count: "count_list f (CHR ''x'') = k" and positive: "0 < size_bits K"
    using assms(1,2) by (simp_all add: valid_kind_def list_all_iff k_def drop_bit_eq_div)
  have rendered: "render f (size_bits K) n = input"
    by (simp add: render_def input_def v_def off_def and_small_masks push_bit_eq_mult)
  have "0 < k"
    using positive unfolding k_def by simp
  then have "f \<noteq> []"
    using count by auto
  then have nonempty: "input \<noteq> []"
    using length_str_loop [of "rev f" v] by (auto simp: input_def)
  have norm: "normalized input = f"
    using assms(3) by (simp add: input_def normalized_simps normalized_str_loop plain_literals_rev)
  have align: "size_bits K + off = 4 * k"
    unfolding off_def k_def by (rule nibble_alignment)
  have "v < 2 ^ size_bits K * 2 ^ off"
    using assms(5) by (simp add: v_def)
  moreover have "(16::int) ^ k = 2 ^ (4 * k)"
    by (simp add: power_mult)
  ultimately have small: "v < 16 ^ k"
    using align by (simp flip: power_add)
  have v: "0 \<le> v"
    using assms(4) by (simp add: v_def)
  have "accumulate input 0 = v mod 16 ^ k"
    using accumulate_str_loop [of "rev f" v] assms(3) v count
    by (simp add: input_def plain_literals_rev count_list_rev)
  then have acc: "accumulate input 0 = v"
    using v small by simp
  have "drop_bit off v = n"
    by (simp add: v_def drop_bit_eq_div)
  then have "parse_impl input [K] = Inr (n, K)"
    using nonempty norm assms(2) acc
    by (simp add: parse_impl_eq and_small_masks off_def)
  then show ?thesis
    by (simp add: HWAddress_init_def rendered)
qed

lemma matches_plain_template:
  "structurally_matches f input \<Longrightarrow> plain_literals f \<Longrightarrow> f = normalized input"
  unfolding structurally_matches_def
proof (induction f input rule: list_all2_induct)
  case Nil
  show ?case by (simp add: normalized_simps)
next
  case (Cons t f c input)
  then show ?case
    using x_not_hex by (auto simp: normalized_simps plain_literals_def split: if_splits)
qed

lemma normalized_matches:
  "CHR ''x'' \<notin> set input \<Longrightarrow> structurally_matches (normalized input) input"
  by (induction input) (auto simp: structurally_matches_def normalized_simps)

lemma fold_min_same:
  fixes t :: "'a::linorder"
  shows "\<forall>u\<in>set ts. u = t \<Longrightarrow> fold min ts t = t"
  by (induction ts) simp_all

lemma nibble_shift: "nat ((4 - int s) mod 4) = (4 - s mod 4) mod 4"
proof -
  have "s mod 4 = 0 \<or> s mod 4 = 1 \<or> s mod 4 = 2 \<or> s mod 4 = 3"
    by linarith
  moreover have "(4 - int s) mod 4 = (4 - int (s mod 4)) mod 4"
    by (simp only: zmod_int mod_diff_right_eq of_nat_numeral)
  ultimately show ?thesis
    by (elim disjE) simp_all
qed

lemma nibble_shift_neg: "nat (- int s mod 4) = (4 - s mod 4) mod 4"
  using nibble_shift [of s] by simp

lemma parse_impl_refines_reference:
  assumes "input \<noteq> []" and "CHR ''x'' \<notin> set input"
    and "\<forall>K\<in>set kinds. \<forall>f\<in>set (formats K). plain_literals f"
  shows "parse_impl input kinds =
     (case reference_match input kinds of
        None \<Rightarrow> Inl (ValueError Cannot_parse)
      | Some result \<Rightarrow> Inr result)"
proof -
  let ?t = "normalized input"
  let ?all = "concat (map formats kinds)"
  have same: "structurally_matches f input = (f = ?t)" if "f \<in> set ?all" for f
    using that assms(2,3) matches_plain_template [of f input] normalized_matches [of input]
    by auto
  then have filt: "filter (\<lambda>f. structurally_matches f input) ?all = filter (\<lambda>f. f = ?t) ?all"
    by (intro filter_cong) simp_all
  have acc: "hex_accumulate input = accumulate input 0"
    by (simp add: hex_accumulate_def accumulate_def)
  show ?thesis
  proof (cases "filter (\<lambda>f. f = ?t) ?all")
    case Nil
    then have "\<forall>K\<in>set kinds. ?t \<notin> set (formats K)"
      by (auto simp: filter_empty_conv)
    then have "find (\<lambda>K. ?t \<in> set (formats K)) kinds = None"
      by (simp add: find_None_iff)
    with Nil assms(1) show ?thesis
      by (simp add: parse_impl_eq reference_match_def filt)
  next
    case (Cons t ts)
    have "\<forall>u\<in>set (filter (\<lambda>f. f = ?t) ?all). u = ?t"
      by simp
    then have "\<forall>u\<in>set (t # ts). u = ?t"
      by (simp only: Cons)
    then have least: "fold min ts t = ?t"
      using fold_min_same [of ts t] by simp
    show ?thesis
      using assms(1) Cons
      by (simp add: parse_impl_eq reference_match_def filt least acc and_small_masks
          nibble_shift_neg drop_bit_eq_div split: option.splits)
  qed
qed

end
